theory Spec2Isabelle
  imports Main "HOL-Library.Char_ord" "HOL-Library.AList"
begin

section \<open>Propositional formulas: syntax (propositions/syntax.py)\<close>

text \<open>
  Python strings are modelled as HOL strings, one \<^typ>\<open>char\<close> per code point, so the
  model covers the code points below 256. On these \<open>str.isdecimal\<close> holds exactly for
  the ASCII digits. Python compares one-character strings by code point, which is the
  order of \<^typ>\<open>char\<close>.

  Exceptions are values: a function that can raise returns \<open>error + 'a\<close>, with \<open>Inl\<close>
  the exception raised.

  The decorators \<open>lru_cache\<close>, \<open>frozen\<close> and \<open>memoized_parameterless_method\<close> cache the
  results of functions without effects and forbid assignment to the attributes of a
  formula; they do not change what a function returns and have no counterpart here.
\<close>

text \<open>
  \<open>NoReturnValue\<close> stands for a call that runs off the end of the function without a
  \<open>return\<close> where the caller expects a value: Python hands back \<open>None\<close> there.
\<close>

datatype error =
  AssertionError | IndexError | KeyError | TypeError | AttributeError | NoReturnValue

definition isdecimal_char :: "char \<Rightarrow> bool" where
  "isdecimal_char c = (CHR ''0'' \<le> c \<and> c \<le> CHR ''9'')"

text \<open>\<open>str.isdecimal\<close>: every character is a decimal digit and there is at least one.\<close>

definition isdecimal :: "string \<Rightarrow> bool" where
  "isdecimal s = (s \<noteq> [] \<and> list_all isdecimal_char s)"

text \<open>\<open>is_variable\<close> reads \<open>string[0]\<close>, which raises IndexError on the empty string.\<close>

fun is_variable :: "string \<Rightarrow> error + bool" where
  "is_variable [] = Inl IndexError"
| "is_variable (c # cs) =
     Inr (CHR ''p'' \<le> c \<and> c \<le> CHR ''z'' \<and> (length (c # cs) = 1 \<or> isdecimal cs))"

definition is_constant :: "string \<Rightarrow> bool" where
  "is_constant string = (string = ''T'' \<or> string = ''F'')"

definition is_unary :: "string \<Rightarrow> bool" where
  "is_unary string = (string = ''~'')"

definition is_binary :: "string \<Rightarrow> bool" where
  "is_binary string = (string = ''&'' \<or> string = ''|'' \<or> string = ''->'')"

text \<open>
  The loop of \<open>parse_str\<close> over \<open>enumerate(string)\<close>: \<open>scan s counter ind\<close> runs it on
  the characters \<open>s\<close> that are left, \<open>ind\<close> being the index of the first of them, and
  returns \<open>ind\<close> and \<open>counter\<close> as they are after the loop (with the \<open>else: ind += 1\<close> of
  a loop that was not left by \<open>break\<close>).
\<close>

fun scan :: "string \<Rightarrow> int \<Rightarrow> nat \<Rightarrow> nat \<times> int" where
  "scan [] counter ind = (ind, counter)"
| "scan (ele # s) counter ind =
     (if ele = CHR ''('' then scan s (counter + 1) (ind + 1)
      else if ele = CHR '')'' then scan s (counter - 1) (ind + 1)
      else if counter = 0 then (ind, counter)
      else scan s counter (ind + 1))"

definition parse_str :: "string \<Rightarrow> error + (string \<times> string)" where
  "parse_str string =
     (case string of
        [] \<Rightarrow> Inl IndexError
      | c # cs \<Rightarrow>
         (case is_variable [c] of
            Inl e \<Rightarrow> Inl e
          | Inr v \<Rightarrow>
             if v then
               (let len_decimals = length (takeWhile isdecimal_char cs)
                in Inr (take (len_decimals + 1) string, drop (len_decimals + 1) string))
             else if take 2 string = ''->'' then Inr (take 2 string, drop 2 string)
             else if c = CHR ''('' then
               (case scan string 0 0 of
                  (ind, counter) \<Rightarrow>
                    if counter \<noteq> 0 then Inr ([c], cs)
                    else Inr (take ind string, drop ind string))
             else Inr ([c], cs)))"

text \<open>
  The class \<open>Formula\<close>: the attributes \<open>root\<close>, \<open>first\<close> and \<open>second\<close>; an operand that
  \<open>__init__\<close> does not set is \<open>None\<close>.
\<close>

datatype formula = Formula (root: string) (first: "formula option") (second: "formula option")

text \<open>\<open>Formula.__init__\<close> with its assertions.\<close>

definition Formula_init :: "string \<Rightarrow> formula option \<Rightarrow> formula option \<Rightarrow> error + formula" where
  "Formula_init root' first' second' =
     (case is_variable root' of
        Inl e \<Rightarrow> Inl e
      | Inr v \<Rightarrow>
         if v \<or> is_constant root' then
           (if first' = None \<and> second' = None then Inr (Formula root' None None)
            else Inl AssertionError)
         else if is_unary root' then
           (if first' \<noteq> None \<and> second' = None then Inr (Formula root' first' None)
            else Inl AssertionError)
         else if \<not> is_binary root' then Inl AssertionError
         else if first' \<noteq> None \<and> second' \<noteq> None then Inr (Formula root' first' second')
         else Inl AssertionError)"

text \<open>The error messages of \<open>_parse_prefix\<close>.\<close>

definition msg_empty :: string where
  "msg_empty = ''string not found!''"

definition msg_unary :: "string \<Rightarrow> string" where
  "msg_unary first' = first' @ '' is unary not a valid formula!''"

definition msg_not_closed :: string where
  "msg_not_closed = ''some of '' @ [CHR 0x27] @ ''('' @ [CHR 0x27] @ '' are not closed!''"

definition msg_one_found :: string where
  "msg_one_found = ''there should be two formulas but one found!''"

definition msg_connective :: string where
  "msg_connective = ''wrong connective is been used!''"

definition msg_not_valid :: "string \<Rightarrow> string" where
  "msg_not_valid s = s @ '' is not a valid formula!''"

definition msg_couldnt :: "string \<Rightarrow> string" where
  "msg_couldnt second_r = ''couldn'' @ [CHR 0x27] @ ''t parse '' @ second_r @ ''!''"

text \<open>
  The number of opening parentheses and negation signs of a string: the measure under
  which \<open>_parse_prefix\<close> terminates. Its recursive calls are on a string with fewer
  of them, also where the string is an error message of an inner call.
\<close>

definition paren_count :: "string \<Rightarrow> nat" where
  "paren_count s = length (filter (\<lambda>c. c = CHR ''('' \<or> c = CHR ''~'') s)"

text \<open>
  \<open>Formula._parse_prefix\<close>. The result is the pair the source returns (a formula or
  \<open>None\<close>, and the remainder or the error message), or the exception that escapes.
  \<open>first[0]\<close> is \<open>hd first\<close>: it is read only after \<open>is_variable(first)\<close> has returned,
  so \<open>first\<close> is not empty there. \<open>first[1:-1]\<close> is \<open>butlast (tl first')\<close>; the
  local variables \<open>first\<close>, \<open>_rest\<close> and \<open>_second\<close> are \<open>first'\<close>, \<open>rest'\<close> and \<open>second'\<close>.
\<close>

function parse_prefix :: "string \<Rightarrow> error + (formula option \<times> string)" where
  "parse_prefix string =
     (if string = [] then Inr (None, msg_empty)
      else
       (case parse_str string of
          Inl e \<Rightarrow> Inl e
        | Inr (first', rest) \<Rightarrow>
           (case is_variable first' of
              Inl e \<Rightarrow> Inl e
            | Inr v \<Rightarrow>
               if v \<or> is_constant first' then
                 (case Formula_init first' None None of
                    Inl e \<Rightarrow> Inl e
                  | Inr f \<Rightarrow> Inr (Some f, rest))
               else if is_binary first' then Inr (None, string)
               else if is_unary first' then
                 (if rest = [] then Inr (None, msg_unary first')
                  else
                   (case parse_prefix rest of
                      Inl e \<Rightarrow> Inl e
                    | Inr (operand, r) \<Rightarrow>
                       (case Formula_init first' operand None of
                          Inl e \<Rightarrow> Inl e
                        | Inr f \<Rightarrow> Inr (Some f, r))))
               else if hd first' = CHR ''('' then
                 (if first' = ''('' then Inr (None, msg_not_closed)
                  else
                   (case parse_prefix (butlast (tl first')) of
                      Inl e \<Rightarrow> Inl e
                    | Inr (first_f, rest') \<Rightarrow>
                       if rest' = [] then Inr (None, msg_one_found)
                       else
                        (case parse_str rest' of
                           Inl e \<Rightarrow> Inl e
                         | Inr (connective, second') \<Rightarrow>
                            if \<not> is_binary connective then Inr (None, msg_connective)
                            else
                             (case parse_prefix second' of
                                Inl e \<Rightarrow> Inl e
                              | Inr (second_f, second_r) \<Rightarrow>
                                 if second_r \<noteq> [] then
                                   (if second_f = None
                                    then Inr (None, msg_not_valid second_r)
                                    else Inr (None, msg_couldnt second_r))
                                 else
                                  (case Formula_init connective first_f second_f of
                                     Inl e \<Rightarrow> Inl e
                                   | Inr f \<Rightarrow> Inr (Some f, rest))))))
               else Inr (None, msg_not_valid string))))"
  by pat_completeness auto

text \<open>
  \<open>Formula.__repr__\<close>, \<open>Formula.variables\<close> and \<open>Formula.operators\<close>. Reading an
  operand that is \<open>None\<close> raises AttributeError in the recursive call; a root that is
  none of the four kinds falls through the \<open>if\<close> chain.
\<close>

fun Formula_repr :: "formula \<Rightarrow> error + string" where
  "Formula_repr (Formula root' first' second') =
     (case is_variable root' of
        Inl e \<Rightarrow> Inl e
      | Inr v \<Rightarrow>
         if v \<or> is_constant root' then Inr root'
         else if is_unary root' then
           (case first' of
              None \<Rightarrow> Inl AttributeError
            | Some a \<Rightarrow>
               (case Formula_repr a of Inl e \<Rightarrow> Inl e | Inr s \<Rightarrow> Inr (root' @ s)))
         else if is_binary root' then
           (case first' of
              None \<Rightarrow> Inl AttributeError
            | Some a \<Rightarrow>
               (case Formula_repr a of
                  Inl e \<Rightarrow> Inl e
                | Inr s1 \<Rightarrow>
                   (case second' of
                      None \<Rightarrow> Inl AttributeError
                    | Some b \<Rightarrow>
                       (case Formula_repr b of
                          Inl e \<Rightarrow> Inl e
                        | Inr s2 \<Rightarrow> Inr (''('' @ s1 @ root' @ s2 @ '')'')))))
         else Inl NoReturnValue)"

fun Formula_variables :: "formula \<Rightarrow> error + string set" where
  "Formula_variables (Formula root' first' second') =
     (case is_variable root' of
        Inl e \<Rightarrow> Inl e
      | Inr v \<Rightarrow>
         if v then Inr {root'}
         else if is_constant root' then Inr {}
         else if is_unary root' then
           (case first' of None \<Rightarrow> Inl AttributeError | Some a \<Rightarrow> Formula_variables a)
         else if is_binary root' then
           (case first' of
              None \<Rightarrow> Inl AttributeError
            | Some a \<Rightarrow>
               (case Formula_variables a of
                  Inl e \<Rightarrow> Inl e
                | Inr s1 \<Rightarrow>
                   (case second' of
                      None \<Rightarrow> Inl AttributeError
                    | Some b \<Rightarrow>
                       (case Formula_variables b of
                          Inl e \<Rightarrow> Inl e
                        | Inr s2 \<Rightarrow> Inr (s1 \<union> s2)))))
         else Inl NoReturnValue)"

text \<open>\<open>Formula.is_formula\<close>: the second component of the parse is empty.\<close>

definition is_formula :: "string \<Rightarrow> error + bool" where
  "is_formula string =
     (case parse_prefix string of
        Inl e \<Rightarrow> Inl e
      | Inr (f, err) \<Rightarrow> if err \<noteq> [] then Inr False else Inr True)"

text \<open>\<open>Formula.parse\<close>: the assertion, then the first component of the parse.\<close>

definition parse :: "string \<Rightarrow> error + formula option" where
  "parse string =
     (case is_formula string of
        Inl e \<Rightarrow> Inl e
      | Inr ok \<Rightarrow>
         if \<not> ok then Inl AssertionError
         else (case parse_prefix string of Inl e \<Rightarrow> Inl e | Inr (f, r) \<Rightarrow> Inr f))"

text \<open>
  \<open>Formula.substitute_variables\<close>: the source checks the keys of the map and ends
  there, so it returns \<open>None\<close>. The map is the list of its items.
\<close>

fun check_keys :: "(string \<times> formula) list \<Rightarrow> error + unit" where
  "check_keys [] = Inr ()"
| "check_keys ((variable, g) # substitution_map) =
     (case is_variable variable of
        Inl e \<Rightarrow> Inl e
      | Inr v \<Rightarrow> if \<not> v then Inl AssertionError else check_keys substitution_map)"

definition substitute_variables ::
  "formula \<Rightarrow> (string \<times> formula) list \<Rightarrow> error + formula option" where
  "substitute_variables self substitution_map =
     (case check_keys substitution_map of Inl e \<Rightarrow> Inl e | Inr u \<Rightarrow> Inr None)"

text \<open>
  The formulas that \<open>Formula.__init__\<close> can build: the assertions of the constructor
  hold at every node.
\<close>

fun wf_formula :: "formula \<Rightarrow> bool" where
  "wf_formula (Formula root' first' second') =
     (case is_variable root' of
        Inl e \<Rightarrow> False
      | Inr v \<Rightarrow>
         if v \<or> is_constant root' then first' = None \<and> second' = None
         else if is_unary root' then
           (case first' of None \<Rightarrow> False | Some a \<Rightarrow> wf_formula a) \<and> second' = None
         else
           is_binary root' \<and>
           (case first' of None \<Rightarrow> False | Some a \<Rightarrow> wf_formula a) \<and>
           (case second' of None \<Rightarrow> False | Some b \<Rightarrow> wf_formula b))"

section \<open>Semantics (propositions/semantics.py)\<close>

text \<open>
  A model is a Python \<open>dict\<close> from variable names to truth values. The order of its
  keys is the order in which they were inserted, and \<open>_synthesize_for_model\<close> reads
  that order, so a model is the list of its items. \<open>{v: b}\<close> is \<open>[(v, b)]\<close>,
  \<open>model[key]\<close> is \<open>map_of model key\<close> with KeyError for a missing key, and \<open>a | b\<close>
  is \<open>dict_or a b\<close>: the items of \<open>b\<close> are stored into \<open>a\<close> one after the other, a
  key that is there keeping its place and a new key going to the end.
\<close>

type_synonym model = "(string \<times> bool) list"

text \<open>\<open>model.keys()\<close>, as a set.\<close>

definition keys :: "('k \<times> 'v) list \<Rightarrow> 'k set" where
  "keys model = set (map fst model)"

definition dict_or :: "('k \<times> 'v) list \<Rightarrow> ('k \<times> 'v) list \<Rightarrow> ('k \<times> 'v) list" where
  "dict_or a b = foldl (\<lambda>d (k, v). AList.update k v d) a b"

fun is_model :: "model \<Rightarrow> error + bool" where
  "is_model [] = Inr True"
| "is_model ((key, b) # model) =
     (case is_variable key of
        Inl e \<Rightarrow> Inl e
      | Inr v \<Rightarrow> if \<not> v then Inr False else is_model model)"

text \<open>The function \<open>variables\<close> of semantics.py (the method is \<open>Formula_variables\<close>).\<close>

definition variables :: "model \<Rightarrow> error + string set" where
  "variables model =
     (case is_model model of
        Inl e \<Rightarrow> Inl e
      | Inr ok \<Rightarrow> if \<not> ok then Inl AssertionError else Inr (keys model))"

text \<open>
  \<open>evaluate\<close>. Both assertions run at every call, the recursive ones too. \<open>or\<close> and
  \<open>and\<close> evaluate their second operand only when the first does not decide.
\<close>

fun evaluate :: "formula \<Rightarrow> model \<Rightarrow> error + bool" where
  "evaluate (Formula root' first' second') model =
     (case is_model model of
        Inl e \<Rightarrow> Inl e
      | Inr ok \<Rightarrow>
         if \<not> ok then Inl AssertionError
         else
          (case Formula_variables (Formula root' first' second') of
             Inl e \<Rightarrow> Inl e
           | Inr vs \<Rightarrow>
              (case variables model of
                 Inl e \<Rightarrow> Inl e
               | Inr ks \<Rightarrow>
                  if \<not> vs \<subseteq> ks then Inl AssertionError
                  else
                   (case is_variable root' of
                      Inl e \<Rightarrow> Inl e
                    | Inr v \<Rightarrow>
                       if v then
                         (case map_of model root' of
                            None \<Rightarrow> Inl KeyError
                          | Some b \<Rightarrow> Inr b)
                       else if is_constant root' then
                         (if root' = ''T'' then Inr True else Inr False)
                       else if is_unary root' then
                         (case first' of
                            None \<Rightarrow> Inl AttributeError
                          | Some a \<Rightarrow>
                             (case evaluate a model of
                                Inl e \<Rightarrow> Inl e
                              | Inr x \<Rightarrow> Inr (\<not> x)))
                       else if is_binary root' then
                         (if root' = ''|'' then
                            (case first' of
                               None \<Rightarrow> Inl AttributeError
                             | Some a \<Rightarrow>
                                (case evaluate a model of
                                   Inl e \<Rightarrow> Inl e
                                 | Inr x \<Rightarrow>
                                    if x then Inr True
                                    else (case second' of
                                            None \<Rightarrow> Inl AttributeError
                                          | Some b \<Rightarrow> evaluate b model)))
                          else if root' = ''&'' then
                            (case first' of
                               None \<Rightarrow> Inl AttributeError
                             | Some a \<Rightarrow>
                                (case evaluate a model of
                                   Inl e \<Rightarrow> Inl e
                                 | Inr x \<Rightarrow>
                                    if \<not> x then Inr False
                                    else (case second' of
                                            None \<Rightarrow> Inl AttributeError
                                          | Some b \<Rightarrow> evaluate b model)))
                          else if root' = ''->'' then
                            (case first' of
                               None \<Rightarrow> Inl AttributeError
                             | Some a \<Rightarrow>
                                (case evaluate a model of
                                   Inl e \<Rightarrow> Inl e
                                 | Inr x \<Rightarrow>
                                    if \<not> x then Inr True
                                    else (case second' of
                                            None \<Rightarrow> Inl AttributeError
                                          | Some b \<Rightarrow> evaluate b model)))
                          else Inl NoReturnValue)
                       else Inl NoReturnValue))))"

text \<open>
  \<open>all_models\<close>. The \<open>for\<close> loop returns in its first round, so an empty list of
  variables reaches the end of the function and the result is \<open>None\<close>: the result is
  an optional list. \<open>itertools.product\<close> of two lists is \<open>List.product\<close>, the first
  component changing slowest.
\<close>

fun all_models :: "string list \<Rightarrow> error + model list option" where
  "all_models [] = Inr None"
| "all_models (v # variables') =
     (case is_variable v of
        Inl e \<Rightarrow> Inl e
      | Inr ok \<Rightarrow>
         if \<not> ok then Inl AssertionError
         else if variables' = [] then Inr (Some [[(v, False)], [(v, True)]])
         else
          (case all_models variables' of
             Inl e \<Rightarrow> Inl e
           | Inr None \<Rightarrow> Inl TypeError
           | Inr (Some models) \<Rightarrow>
              Inr (Some (map (\<lambda>x. dict_or (fst x) (snd x))
                          (List.product [[(v, False)], [(v, True)]] models)))))"

fun truth_values :: "formula \<Rightarrow> model list \<Rightarrow> error + bool list" where
  "truth_values formula [] = Inr []"
| "truth_values formula (model # models) =
     (case evaluate formula model of
        Inl e \<Rightarrow> Inl e
      | Inr b \<Rightarrow>
         (case truth_values formula models of
            Inl e \<Rightarrow> Inl e
          | Inr lst \<Rightarrow> Inr ((if b then True else False) # lst)))"

text \<open>The loop of \<open>is_tautology\<close>: \<open>False\<close> at the first model that falsifies.\<close>

fun holds_in_all :: "formula \<Rightarrow> model list \<Rightarrow> error + bool" where
  "holds_in_all formula [] = Inr True"
| "holds_in_all formula (model # models) =
     (case evaluate formula model of
        Inl e \<Rightarrow> Inl e
      | Inr b \<Rightarrow> if \<not> b then Inr False else holds_in_all formula models)"

text \<open>
  \<open>is_tautology\<close>, \<open>is_contradiction\<close> and \<open>is_satisfiable\<close>. The order in which
  \<open>list(formula.variables())\<close> lists a set is not fixed by Python, so the conversion
  is the parameter \<open>list_of\<close>.
\<close>

definition is_tautology :: "(string set \<Rightarrow> string list) \<Rightarrow> formula \<Rightarrow> error + bool" where
  "is_tautology list_of formula =
     (case Formula_variables formula of
        Inl e \<Rightarrow> Inl e
      | Inr vs \<Rightarrow>
         (case all_models (list_of vs) of
            Inl e \<Rightarrow> Inl e
          | Inr None \<Rightarrow> evaluate formula [(''p'', True)]
          | Inr (Some models) \<Rightarrow>
             if models = [] then evaluate formula [(''p'', True)]
             else holds_in_all formula models))"

definition is_contradiction :: "(string set \<Rightarrow> string list) \<Rightarrow> formula \<Rightarrow> error + bool" where
  "is_contradiction list_of formula =
     (case Formula_init ''~'' (Some formula) None of
        Inl e \<Rightarrow> Inl e
      | Inr g \<Rightarrow>
         (case is_tautology list_of g of
            Inl e \<Rightarrow> Inl e
          | Inr t \<Rightarrow> if t then Inr True else Inr False))"

definition is_satisfiable :: "(string set \<Rightarrow> string list) \<Rightarrow> formula \<Rightarrow> error + bool" where
  "is_satisfiable list_of formula =
     (case is_contradiction list_of formula of
        Inl e \<Rightarrow> Inl e
      | Inr c \<Rightarrow> if c then Inr False else Inr True)"

text \<open>
  A loop \<open>for x in xs: lst.append(g(x))\<close>, and the loop
  \<open>for clause in clauses: formula = Formula(op, formula, clause)\<close>.
\<close>

fun append_each :: "('a \<Rightarrow> error + 'b) \<Rightarrow> 'a list \<Rightarrow> 'b list \<Rightarrow> error + 'b list" where
  "append_each g [] lst = Inr lst"
| "append_each g (x # xs) lst =
     (case g x of Inl e \<Rightarrow> Inl e | Inr y \<Rightarrow> append_each g xs (lst @ [y]))"

fun join_clauses :: "string \<Rightarrow> formula \<Rightarrow> formula list \<Rightarrow> error + formula" where
  "join_clauses op formula [] = Inr formula"
| "join_clauses op formula (clause # clauses) =
     (case Formula_init op (Some formula) (Some clause) of
        Inl e \<Rightarrow> Inl e
      | Inr g \<Rightarrow> join_clauses op g clauses)"

text \<open>\<open>Formula(key)\<close> and \<open>Formula("~", Formula(key))\<close>.\<close>

definition atom :: "string \<Rightarrow> error + formula" where
  "atom key = Formula_init key None None"

definition negated_atom :: "string \<Rightarrow> error + formula" where
  "negated_atom key =
     (case Formula_init key None None of
        Inl e \<Rightarrow> Inl e
      | Inr a \<Rightarrow> Formula_init ''~'' (Some a) None)"

definition synthesize_for_model :: "model \<Rightarrow> error + formula" where
  "synthesize_for_model model =
     (case is_model model of
        Inl e \<Rightarrow> Inl e
      | Inr ok \<Rightarrow>
         if \<not> ok then Inl AssertionError
         else if \<not> length (map fst model) > 0 then Inl AssertionError
         else
          (case append_each
                  (\<lambda>key. case map_of model key of
                            None \<Rightarrow> Inl KeyError
                          | Some b \<Rightarrow> if b then atom key else negated_atom key)
                  (map fst model) [] of
             Inl e \<Rightarrow> Inl e
           | Inr [] \<Rightarrow> Inl IndexError
           | Inr (formula # clauses) \<Rightarrow>
              if length (formula # clauses) > 1 then join_clauses ''&'' formula clauses
              else Inr formula))"

text \<open>
  The loop of \<open>synthesize\<close> over \<open>enumerate(values)\<close>, with the state \<open>ands\<close> and
  \<open>has_true\<close>; \<open>row\<close> is \<open>_synthesize_for_model\<close>. The loop of \<open>synthesize_cnf\<close> is
  the same with the flag tested the other way round.
\<close>

fun rows_loop ::
  "(model \<Rightarrow> error + formula) \<Rightarrow> bool \<Rightarrow> model list option \<Rightarrow> nat \<Rightarrow> bool list \<Rightarrow>
     formula list \<Rightarrow> bool \<Rightarrow> error + (formula list \<times> bool)" where
  "rows_loop row want models ind [] ands has = Inr (ands, has)"
| "rows_loop row want models ind (flag # values) ands has =
     (if flag = want then
        (case models of
           None \<Rightarrow> Inl TypeError
         | Some ms \<Rightarrow>
            if \<not> ind < length ms then Inl IndexError
            else
             (case row (ms ! ind) of
                Inl e \<Rightarrow> Inl e
              | Inr clause \<Rightarrow> rows_loop row want models (ind + 1) values (ands @ [clause]) True))
      else rows_loop row want models (ind + 1) values ands has)"

text \<open>\<open>Formula(op, Formula(variable), Formula("~", Formula(variable)))\<close>.\<close>

definition atom_op_negation :: "string \<Rightarrow> string \<Rightarrow> error + formula" where
  "atom_op_negation op variable =
     (case atom variable of
        Inl e \<Rightarrow> Inl e
      | Inr a \<Rightarrow>
         (case negated_atom variable of
            Inl e \<Rightarrow> Inl e
          | Inr n \<Rightarrow> Formula_init op (Some a) (Some n)))"

definition synthesize :: "string list \<Rightarrow> bool list \<Rightarrow> error + formula" where
  "synthesize variables' values =
     (if \<not> length variables' > 0 then Inl AssertionError
      else
       (case all_models variables' of
          Inl e \<Rightarrow> Inl e
        | Inr models \<Rightarrow>
           (case rows_loop synthesize_for_model True models 0 values [] False of
              Inl e \<Rightarrow> Inl e
            | Inr (ands, has_true) \<Rightarrow>
               (case (if \<not> has_true
                      then append_each (atom_op_negation ''&'') variables' ands
                      else Inr ands) of
                  Inl e \<Rightarrow> Inl e
                | Inr [] \<Rightarrow> Inl IndexError
                | Inr (formula # clauses) \<Rightarrow> join_clauses ''|'' formula clauses))))"

text \<open>\<open>_synthesize_for_all_except_model\<close>, over \<open>model.items()\<close>.\<close>

definition synthesize_for_all_except_model :: "model \<Rightarrow> error + formula" where
  "synthesize_for_all_except_model model =
     (case is_model model of
        Inl e \<Rightarrow> Inl e
      | Inr ok \<Rightarrow>
         if \<not> ok then Inl AssertionError
         else if \<not> length (map fst model) > 0 then Inl AssertionError
         else
          (case append_each
                  (\<lambda>(variable, flag). if flag then negated_atom variable else atom variable)
                  model [] of
             Inl e \<Rightarrow> Inl e
           | Inr [] \<Rightarrow> Inl IndexError
           | Inr (formula # literals) \<Rightarrow> join_clauses ''|'' formula literals))"

definition synthesize_cnf :: "string list \<Rightarrow> bool list \<Rightarrow> error + formula" where
  "synthesize_cnf variables' values =
     (if \<not> length variables' > 0 then Inl AssertionError
      else
       (case all_models variables' of
          Inl e \<Rightarrow> Inl e
        | Inr models \<Rightarrow>
           (case rows_loop synthesize_for_all_except_model False models 0 values [] False of
              Inl e \<Rightarrow> Inl e
            | Inr (clauses, has_false) \<Rightarrow>
               (case (if \<not> has_false
                      then append_each (atom_op_negation ''|'') variables' clauses
                      else Inr clauses) of
                  Inl e \<Rightarrow> Inl e
                | Inr [] \<Rightarrow> Inl IndexError
                | Inr (formula # rest) \<Rightarrow> join_clauses ''&'' formula rest))))"

section \<open>The semantics of the specification\<close>

text \<open>
  The truth value of a formula as the specification gives it, node by node: a variable
  has the value the model binds to it, \<open>T\<close> is true and \<open>F\<close> is false, \<open>~x\<close> is the
  negation of \<open>x\<close>, \<open>x&y\<close> is the conjunction, \<open>x|y\<close> the disjunction, and \<open>x->y\<close> is
  false only when \<open>x\<close> is true and \<open>y\<close> is false. It is the reference that \<open>evaluate\<close>
  is compared with; it is not taken from the source.
\<close>

fun spec_evaluate :: "formula \<Rightarrow> model \<Rightarrow> bool" where
  "spec_evaluate (Formula r None None) m =
     (if r = ''T'' then True else if r = ''F'' then False else map_of m r = Some True)"
| "spec_evaluate (Formula r (Some x) None) m = (\<not> spec_evaluate x m)"
| "spec_evaluate (Formula r (Some x) (Some y)) m =
     (if r = ''&'' then spec_evaluate x m \<and> spec_evaluate y m
      else if r = ''|'' then spec_evaluate x m \<or> spec_evaluate y m
      else \<not> (spec_evaluate x m \<and> \<not> spec_evaluate y m))"
| "spec_evaluate (Formula r None (Some y)) m = False"


text \<open>The variable names at the leaves of a formula: what \<open>Formula.variables\<close> returns.\<close>

fun vars_of :: "formula \<Rightarrow> string set" where
  "vars_of (Formula r a b) =
     (if is_variable r = Inr True then {r}
      else (case a of None \<Rightarrow> {} | Some x \<Rightarrow> vars_of x) \<union>
           (case b of None \<Rightarrow> {} | Some y \<Rightarrow> vars_of y))"


text \<open>
  The binary counter of the specification: the \<open>n\<close> bits of \<open>i\<close>, the most significant
  first.
\<close>

definition counter_bits :: "nat \<Rightarrow> nat \<Rightarrow> bool list" where
  "counter_bits n i = map (\<lambda>k. bit i (n - 1 - k)) [0..<n]"

text \<open>
  The formulas that the synthesis builds: \<open>join op f cs\<close> applies \<open>op\<close> to \<open>f\<close> and the
  clauses \<open>cs\<close> from left to right, and \<open>contradiction_of v\<close> is \<open>(v&~v)\<close>.
\<close>

definition join :: "string \<Rightarrow> formula \<Rightarrow> formula list \<Rightarrow> formula" where
  "join op f cs = foldl (\<lambda>g c. Formula op (Some g) (Some c)) f cs"

definition contradiction_of :: "string \<Rightarrow> formula" where
  "contradiction_of v =
     Formula ''&'' (Some (Formula v None None))
       (Some (Formula ''~'' (Some (Formula v None None)) None))"

text \<open>
  \<open>tautology_of v\<close> is \<open>(v|~v)\<close>. \<open>literal (v, b)\<close> is \<open>v\<close> when \<open>b\<close> is true and \<open>~v\<close>
  otherwise; \<open>row_clause m\<close> is the conjunction of the literals of the model \<open>m\<close>, true
  in \<open>m\<close> only, and \<open>except_clause m\<close> the disjunction of the opposite literals, false
  in \<open>m\<close> only. \<open>agrees m m'\<close>: the model \<open>m'\<close> binds every key of \<open>m\<close> as \<open>m\<close> does.
  \<open>selected want ms vs\<close> are the models whose entry in the table \<open>vs\<close> is \<open>want\<close>.
\<close>

definition tautology_of :: "string \<Rightarrow> formula" where
  "tautology_of v =
     Formula ''|'' (Some (Formula v None None))
       (Some (Formula ''~'' (Some (Formula v None None)) None))"

definition literal :: "string \<times> bool \<Rightarrow> formula" where
  "literal kv =
     (if snd kv then Formula (fst kv) None None
      else Formula ''~'' (Some (Formula (fst kv) None None)) None)"

definition row_clause :: "model \<Rightarrow> formula" where
  "row_clause m = join ''&'' (literal (hd m)) (map literal (tl m))"

definition except_clause :: "model \<Rightarrow> formula" where
  "except_clause m =
     join ''|'' (literal (fst (hd m), \<not> snd (hd m)))
       (map (\<lambda>kv. literal (fst kv, \<not> snd kv)) (tl m))"

definition agrees :: "model \<Rightarrow> model \<Rightarrow> bool" where
  "agrees m m' = (\<forall>kv\<in>set m. map_of m' (fst kv) = Some (snd kv))"

definition selected :: "bool \<Rightarrow> model list \<Rightarrow> bool list \<Rightarrow> model list" where
  "selected want ms vs = map fst (filter (\<lambda>mb. snd mb = want) (zip ms vs))"

text \<open>
  The canonical string of a formula, as \<open>Formula.__repr__\<close> returns it for a formula
  that \<open>Formula.__init__\<close> built. \<open>balance s\<close> is the number of opening minus the number
  of closing parentheses of \<open>s\<close>, the value of \<open>counter\<close> after the loop of \<open>parse_str\<close>
  has read \<open>s\<close>. \<open>stop r\<close>: the string \<open>r\<close> is empty or starts with a character that
  ends a variable name and a parenthesized group.
\<close>

fun render :: "formula \<Rightarrow> string" where
  "render (Formula r a b) =
     (case a of
        None \<Rightarrow> r
      | Some x \<Rightarrow>
         (case b of
            None \<Rightarrow> r @ render x
          | Some y \<Rightarrow> ''('' @ render x @ r @ render y @ '')''))"

definition balance :: "string \<Rightarrow> int" where
  "balance s =
     int (length (filter (\<lambda>c. c = CHR ''('') s)) - int (length (filter (\<lambda>c. c = CHR '')'') s))"

definition stop :: "string \<Rightarrow> bool" where
  "stop r = (r = [] \<or> (hd r \<noteq> CHR ''('' \<and> hd r \<noteq> CHR '')'' \<and> \<not> isdecimal_char (hd r)))"

section \<open>Termination of the parser\<close>

text \<open>
  Every recursive call of \<open>_parse_prefix\<close> is on a string with fewer opening
  parentheses and negation signs than its argument. For the call on the right operand
  this rests on the result of the call on the left operand: what that call returns as
  its second component, remainder or error message, has no more of them than its
  argument.
\<close>

lemma paren_count_append:
  "paren_count (a @ b) = paren_count a + paren_count b"
  by (simp add: paren_count_def)

lemma paren_count_Cons:
  "paren_count (c # s) = (if c = CHR ''('' \<or> c = CHR ''~'' then 1 else 0) + paren_count s"
  by (simp add: paren_count_def)

lemma paren_count_Nil: "paren_count [] = 0"
  by (simp add: paren_count_def)

lemma paren_count_butlast: "paren_count (butlast s) \<le> paren_count s"
  by (induction s) (auto simp: paren_count_def)

lemma take1_eq: "take (Suc 0) xs = [y] \<Longrightarrow> xs = y # drop (Suc 0) xs"
  by (cases xs) auto

lemma parse_str_append: "parse_str s = Inr (a, b) \<Longrightarrow> s = a @ b"
  by (auto simp: parse_str_def Let_def
        split: list.splits sum.splits if_splits prod.splits dest: take1_eq)

lemma paren_count_msgs:
  "paren_count msg_empty = 0"
  "paren_count (msg_unary a) = paren_count a"
  "paren_count msg_not_closed = 1"
  "paren_count msg_one_found = 0"
  "paren_count msg_connective = 0"
  "paren_count (msg_not_valid a) = paren_count a"
  "paren_count (msg_couldnt a) = paren_count a"
  by (simp_all add: paren_count_def msg_empty_def msg_unary_def msg_not_closed_def
        msg_one_found_def msg_connective_def msg_not_valid_def msg_couldnt_def)

lemma paren_count_tl_paren:
  "x \<noteq> [] \<Longrightarrow> hd x = CHR ''('' \<Longrightarrow> paren_count (butlast (tl x)) < paren_count x"
  using paren_count_butlast [of "tl x"] by (cases x) (auto simp: paren_count_Cons)

lemma parse_prefix_paren_count:
  "parse_prefix_dom s \<Longrightarrow> parse_prefix s = Inr (f, r) \<Longrightarrow> paren_count r \<le> paren_count s"
proof (induction s arbitrary: f r rule: parse_prefix.pinduct)
  case (1 string)
  note eq = parse_prefix.psimps [OF "1.hyps"]
  note res = "1.prems"
  show ?case
  proof (cases "string = []")
    case True
    with eq res show ?thesis by (simp add: paren_count_msgs)
  next
    case ne: False
    from eq res ne obtain first' rest where ps: "parse_str string = Inr (first', rest)"
      by (auto split: sum.splits)
    have str: "string = first' @ rest" by (rule parse_str_append [OF ps])
    from eq res ne ps obtain v where iv: "is_variable first' = Inr v"
      by (auto split: sum.splits)
    have fne: "first' \<noteq> []" using iv by (cases first') auto
    have rest_le: "paren_count rest \<le> paren_count string" by (simp add: str paren_count_append)
    show ?thesis
    proof (cases "v \<or> is_constant first'")
      case True
      with eq res ne ps iv rest_le show ?thesis by (auto split: sum.splits)
    next
      case leaf: False
      show ?thesis
      proof (cases "is_binary first'")
        case True
        with eq res ne ps iv leaf show ?thesis by (auto split: sum.splits)
      next
        case nb: False
        show ?thesis
        proof (cases "is_unary first'")
          case un: True
          show ?thesis
          proof (cases "rest = []")
            case True
            with eq res ne ps iv leaf nb un str show ?thesis
              by (auto simp: paren_count_msgs)
          next
            case rne: False
            from eq res ne ps iv leaf nb un rne obtain operand where
              "parse_prefix rest = Inr (operand, r)"
              by (auto split: sum.splits)
            from "1.IH"(1) [OF ne ps refl iv leaf nb un rne this] rest_le
            show ?thesis by simp
          qed
        next
          case nu: False
          show ?thesis
          proof (cases "hd first' = CHR ''(''")
            case False
            with eq res ne ps iv leaf nb nu show ?thesis
              by (auto simp: paren_count_msgs)
          next
            case par: True
            have one: "1 \<le> paren_count string"
              using par fne
              by (cases first') (auto simp: str paren_count_append paren_count_Cons)
            show ?thesis
            proof (cases "first' = ''(''")
              case True
              with eq res ne ps iv leaf nb nu par one show ?thesis
                by (auto simp: paren_count_msgs)
            next
              case np: False
              let ?X = "butlast (tl first')"
              have X_lt: "paren_count ?X < paren_count string"
                using paren_count_tl_paren [OF fne par] by (simp add: str paren_count_append)
              from eq res ne ps iv leaf nb nu par np obtain first_f rest' where
                p1: "parse_prefix ?X = Inr (first_f, rest')"
                by (auto split: sum.splits)
              from "1.IH"(2) [OF ne ps refl iv leaf nb nu par np p1]
              have r1: "paren_count rest' \<le> paren_count ?X" .
              show ?thesis
              proof (cases "rest' = []")
                case True
                with eq res ne ps iv leaf nb nu par np p1 show ?thesis
                  by (auto simp: paren_count_msgs)
              next
                case r'ne: False
                from eq res ne ps iv leaf nb nu par np p1 r'ne obtain connective second' where
                  ps2: "parse_str rest' = Inr (connective, second')"
                  by (auto split: sum.splits)
                have s2: "paren_count second' \<le> paren_count rest'"
                  using parse_str_append [OF ps2] by (simp add: paren_count_append)
                show ?thesis
                proof (cases "is_binary connective")
                  case False
                  with eq res ne ps iv leaf nb nu par np p1 r'ne ps2 show ?thesis
                    by (auto simp: paren_count_msgs)
                next
                  case bc: True
                  from eq res ne ps iv leaf nb nu par np p1 r'ne ps2 bc obtain second_f second_r
                    where p2: "parse_prefix second' = Inr (second_f, second_r)"
                    by (auto split: sum.splits)
                  have "\<not> \<not> is_binary connective" using bc by simp
                  from "1.IH"(3) [OF ne ps refl iv leaf nb nu par np p1 refl r'ne ps2 refl this p2]
                  have r2: "paren_count second_r \<le> paren_count second'" .
                  from eq res ne ps iv leaf nb nu par np p1 r'ne ps2 bc p2 r2 s2 r1 X_lt rest_le
                  show ?thesis
                    by (auto simp: paren_count_msgs split: sum.splits if_splits)
                qed
              qed
            qed
          qed
        qed
      qed
    qed
  qed
qed

termination parse_prefix
proof (relation "measure paren_count")
  show "wf (measure paren_count)" by simp
next
  fix string b x y ba
  assume "string \<noteq> []" "parse_str string = Inr b" "(x, y) = b" "is_variable x = Inr ba"
    "\<not> (ba \<or> is_constant x)" "\<not> is_binary x" "is_unary x" "y \<noteq> []"
  then show "(y, string) \<in> measure paren_count"
    using parse_str_append [of string x y]
    by (auto simp: is_unary_def paren_count_append paren_count_Cons paren_count_Nil)
next
  fix string b x y ba
  assume "string \<noteq> []" "parse_str string = Inr b" "(x, y) = b" "is_variable x = Inr ba"
    "\<not> (ba \<or> is_constant x)" "\<not> is_binary x" "\<not> is_unary x" "hd x = CHR ''(''" "x \<noteq> ''(''"
  then show "(butlast (tl x), string) \<in> measure paren_count"
    using parse_str_append [of string x y] paren_count_tl_paren [of x]
    by (cases x) (auto simp: paren_count_append paren_count_Cons)
next
  fix string b x y ba bb xa ya bc xb yaa
  assume "string \<noteq> []" "parse_str string = Inr b" "(x, y) = b" "is_variable x = Inr ba"
    "\<not> (ba \<or> is_constant x)" "\<not> is_binary x" "\<not> is_unary x" "hd x = CHR ''(''" "x \<noteq> ''(''"
    "parse_prefix (butlast (tl x)) = Inr bb" "(xa, ya) = bb" "ya \<noteq> []"
    "parse_str ya = Inr bc" "(xb, yaa) = bc" "\<not> \<not> is_binary xb"
    "parse_prefix_dom (butlast (tl x))"
  then show "(yaa, string) \<in> measure paren_count"
    using parse_str_append [of string x y] paren_count_tl_paren [of x] parse_str_append [of ya xb yaa]
      parse_prefix_paren_count [of "butlast (tl x)" xa ya]
    by (cases x) (auto simp: paren_count_append paren_count_Cons)
qed

section \<open>Well-formed formulas\<close>

text \<open>
  \<open>wf_formula\<close> holds of the formulas that \<open>Formula.__init__\<close> returns when its operands
  are such formulas, and of no others.
\<close>

lemma Formula_init_wf:
  assumes "Formula_init r a b = Inr f"
    and "\<And>x. a = Some x \<Longrightarrow> wf_formula x" and "\<And>y. b = Some y \<Longrightarrow> wf_formula y"
  shows "f = Formula r a b \<and> wf_formula f"
  using assms by (auto simp: Formula_init_def split: sum.splits if_splits)

lemma wf_formula_init:
  "wf_formula (Formula r a b) \<Longrightarrow> Formula_init r a b = Inr (Formula r a b)"
  by (auto simp: Formula_init_def split: sum.splits if_splits option.splits)

lemma is_variable_ne: "is_variable x = Inr b \<Longrightarrow> x \<noteq> []"
  by (cases x) auto

lemma is_variable_total: "x \<noteq> [] \<Longrightarrow> \<exists>b. is_variable x = Inr b"
  by (cases x) auto

lemma is_constant_not_var: "is_constant c \<Longrightarrow> is_variable c = Inr False"
  by (auto simp: is_constant_def)

lemma is_unary_kinds: "is_unary u \<Longrightarrow> is_variable u = Inr False \<and> \<not> is_constant u"
  by (auto simp: is_unary_def is_constant_def)

lemma is_binary_kinds:
  "is_binary op \<Longrightarrow> is_variable op = Inr False \<and> \<not> is_constant op \<and> \<not> is_unary op"
  by (auto simp: is_binary_def is_constant_def is_unary_def)

lemma wf_formula_induct [consumes 1, case_names Var Const Neg Bin]:
  assumes "wf_formula f"
    and "\<And>x. is_variable x = Inr True \<Longrightarrow> P (Formula x None None)"
    and "\<And>c. is_constant c \<Longrightarrow> P (Formula c None None)"
    and "\<And>a. wf_formula a \<Longrightarrow> P a \<Longrightarrow> P (Formula ''~'' (Some a) None)"
    and "\<And>op a b. is_binary op \<Longrightarrow> wf_formula a \<Longrightarrow> wf_formula b \<Longrightarrow> P a \<Longrightarrow> P b
           \<Longrightarrow> P (Formula op (Some a) (Some b))"
  shows "P f"
  using assms(1)
proof (induction f)
  case (Formula r a b)
  from Formula.prems obtain v where v: "is_variable r = Inr v"
    by (auto split: sum.splits)
  show ?case
  proof (cases "v \<or> is_constant r")
    case True
    with Formula.prems v have ab: "a = None" "b = None" by auto
    show ?thesis
    proof (cases v)
      case True
      with v ab assms(2) show ?thesis by simp
    next
      case False
      with \<open>v \<or> is_constant r\<close> ab assms(3) show ?thesis by simp
    qed
  next
    case leaf: False
    show ?thesis
    proof (cases "is_unary r")
      case True
      with Formula.prems v leaf obtain x where x: "a = Some x" "wf_formula x" "b = None"
        by (auto split: option.splits)
      with Formula.IH(1) [of x] have "P x" by simp
      with x True assms(4) show ?thesis by (simp add: is_unary_def)
    next
      case False
      with Formula.prems v leaf obtain x y where
        xy: "is_binary r" "a = Some x" "wf_formula x" "b = Some y" "wf_formula y"
        by (auto split: option.splits)
      with Formula.IH(1) [of x] Formula.IH(2) [of y] have "P x" "P y" by simp_all
      with xy assms(5) show ?thesis by simp
    qed
  qed
qed

lemma wf_Var: "is_variable x = Inr True \<Longrightarrow> wf_formula (Formula x None None)"
  by simp
lemma wf_Const: "is_constant c \<Longrightarrow> wf_formula (Formula c None None)"
  by (simp add: is_constant_not_var)
lemma wf_Neg: "wf_formula (Formula ''~'' (Some a) None) = wf_formula a"
  by (simp add: is_constant_def is_unary_def)
lemma wf_Bin: "is_binary op \<Longrightarrow> wf_formula (Formula op (Some a) (Some b)) = (wf_formula a \<and> wf_formula b)"
  by (simp add: is_binary_kinds)

lemma Formula_variables_wf: "wf_formula f \<Longrightarrow> Formula_variables f = Inr (vars_of f)"
proof (induction f rule: wf_formula_induct)
  case (Var x) then show ?case by simp
next
  case (Const c) then show ?case by (simp add: is_constant_not_var)
next
  case (Neg a) then show ?case by (simp add: is_constant_def is_unary_def)
next
  case (Bin op a b) then show ?case by (simp add: is_binary_kinds)
qed

lemma variables_model: "is_model m = Inr True \<Longrightarrow> variables m = Inr (keys m)"
  by (simp add: variables_def)

lemma evaluate_spec:
  "wf_formula f \<Longrightarrow> is_model m = Inr True \<Longrightarrow> vars_of f \<subseteq> keys m
     \<Longrightarrow> evaluate f m = Inr (spec_evaluate f m)"
proof (induction f rule: wf_formula_induct)
  case (Var x)
  then obtain b where "map_of m x = Some b"
    by (auto simp: keys_def dest: weak_map_of_SomeI)
  with Var show ?case
    by (auto simp: variables_model is_constant_def)
next
  case (Const c) then show ?case 
    by (auto simp: variables_model is_constant_not_var is_constant_def)
next
  case (Neg a) then show ?case
    by (simp add: variables_model Formula_variables_wf is_constant_def is_unary_def)
next
  case (Bin op a b)
  then show ?case
    by (auto simp: variables_model Formula_variables_wf is_binary_kinds is_binary_def)
qed

section \<open>The parser on malformed input\<close>

text \<open>
  Claim C3: for every input string \<open>_parse_prefix\<close>, and hence \<open>is_formula\<close>, returns
  normally, and no string makes the assertions of \<open>Formula.__init__\<close> fail.

  The source does not do this. After a negation sign the operand is built from the
  inner parse without a test that it succeeded (\<open>"~&"\<close>), and inside parentheses the
  error message of the left operand is scanned as if it were the rest of the input
  (\<open>"(&p)"\<close>): in both cases \<open>Formula.__init__\<close> receives \<open>None\<close> as an operand and its
  assertion fails.
\<close>

theorem parse_prefix_assertion_escapes:
  "parse_prefix ''~&'' = Inl AssertionError \<and> is_formula ''~&'' = Inl AssertionError \<and>
   parse_prefix ''(&p)'' = Inl AssertionError \<and> is_formula ''(&p)'' = Inl AssertionError"
  by (simp add: is_formula_def parse_str_def is_binary_def is_unary_def is_constant_def
        Formula_init_def)

section \<open>Substitution\<close>

text \<open>
  Claim C4: \<open>substitute_variables\<close> returns the formula in which every variable that is
  a key of the map is replaced by its image, in a single pass.

  The source checks the keys and stops: it returns \<open>None\<close> for every formula and every
  map, never a formula. At the example of its docstring, \<open>((p->p)|r)\<close> with \<open>p\<close> mapped
  to \<open>(q&r)\<close> and \<open>r\<close> to \<open>p\<close>, the docstring gives \<open>(((q&r)->(q&r))|p)\<close>.
\<close>

theorem substitute_variables_returns_None:
  "substitute_variables f substitution_map \<noteq> Inr (Some g) \<and>
   substitute_variables
     (Formula ''|''
        (Some (Formula ''->'' (Some (Formula ''p'' None None)) (Some (Formula ''p'' None None))))
        (Some (Formula ''r'' None None)))
     [(''p'', Formula ''&'' (Some (Formula ''q'' None None)) (Some (Formula ''r'' None None))),
      (''r'', Formula ''p'' None None)] = Inr None"
  by (simp add: substitute_variables_def split: sum.splits)

section \<open>Enumeration of models\<close>

lemma dict_or_Nil: "dict_or a [] = a" by (simp add: dict_or_def)
lemma dict_or_Cons:
  "dict_or a ((k, v) # b) = dict_or (AList.update k v a) b"
  by (simp add: dict_or_def)

lemma keys_Nil: "keys [] = {}" by (simp add: keys_def)
lemma keys_Cons: "keys ((k, v) # m) = insert k (keys m)" by (simp add: keys_def)
lemma keys_append: "keys (a @ b) = keys a \<union> keys b" by (simp add: keys_def)
lemma keys_update: "keys (AList.update k v a) = insert k (keys a)"
  using dom_update [of k v a] by (simp add: keys_def)

lemma update_fresh: "k \<notin> keys a \<Longrightarrow> AList.update k v a = a @ [(k, v)]"
  by (induction a) (auto simp: keys_def)

lemma dict_or_disjoint:
  "distinct (map fst b) \<Longrightarrow> keys a \<inter> keys b = {} \<Longrightarrow> dict_or a b = a @ b"
proof (induction b arbitrary: a)
  case Nil then show ?case by (simp add: dict_or_Nil)
next
  case (Cons kv b)
  obtain k v where kv: "kv = (k, v)" by (cases kv)
  from Cons.prems kv have fresh: "k \<notin> keys a" by (auto simp: keys_Cons)
  have "dict_or (a @ [(k, v)]) b = (a @ [(k, v)]) @ b"
    using Cons.prems kv by (intro Cons.IH) (auto simp: keys_append keys_Cons keys_def)
  with fresh kv show ?case by (simp add: dict_or_Cons update_fresh)
qed

lemma keys_dict_or: "keys (dict_or a b) = keys a \<union> keys b"
proof (induction b arbitrary: a)
  case Nil then show ?case by (simp add: dict_or_Nil keys_Nil)
next
  case (Cons kv b)
  obtain k v where kv: "kv = (k, v)" by (cases kv)
  show ?case unfolding kv dict_or_Cons Cons.IH
    by (auto simp: keys_update keys_Cons)
qed

lemma is_model_iff: "is_model m = Inr True \<longleftrightarrow> (\<forall>k\<in>keys m. is_variable k = Inr True)"
  by (induction m) (auto simp: keys_Nil keys_Cons split: sum.splits if_splits)

lemma is_model_dict_or:
  "is_model a = Inr True \<Longrightarrow> is_model b = Inr True \<Longrightarrow> is_model (dict_or a b) = Inr True"
  by (auto simp: is_model_iff keys_dict_or)

lemma all_models_props:
  "V \<noteq> [] \<Longrightarrow> \<forall>v\<in>set V. is_variable v = Inr True \<Longrightarrow>
     \<exists>ms. all_models V = Inr (Some ms) \<and> ms \<noteq> [] \<and>
          (\<forall>m\<in>set ms. is_model m = Inr True \<and> keys m = set V)"
proof (induction V)
  case Nil then show ?case by simp
next
  case (Cons v V)
  show ?case
  proof (cases "V = []")
    case True
    with Cons.prems show ?thesis by (simp add: keys_Cons keys_Nil)
  next
    case False
    with Cons obtain ms where ms: "all_models V = Inr (Some ms)" "ms \<noteq> []"
      "\<forall>m\<in>set ms. is_model m = Inr True \<and> keys m = set V" by auto
    from ms(2) obtain m0 ms' where "ms = m0 # ms'" by (cases ms) auto
    with False Cons.prems ms show ?thesis
      by (auto simp: keys_dict_or is_model_iff keys_Cons keys_Nil)
  qed
qed

lemma all_models_distinct:
  "V \<noteq> [] \<Longrightarrow> distinct V \<Longrightarrow> \<forall>v\<in>set V. is_variable v = Inr True \<Longrightarrow>
     all_models V = Inr (Some (map (zip V) (product_lists (replicate (length V) [False, True]))))"
proof (induction V)
  case Nil then show ?case by simp
next
  case (Cons v V)
  show ?case
  proof (cases "V = []")
    case True
    with Cons.prems show ?thesis by simp
  next
    case False
    let ?bs = "product_lists (replicate (length V) [False, True])"
    from False Cons have am: "all_models V = Inr (Some (map (zip V) ?bs))" by simp
    have merge: "dict_or [(v, b)] (zip V bs) = zip (v # V) (b # bs)"
      if "bs \<in> set ?bs" for b bs
    proof -
      from that have "length bs = length V"
        using in_set_product_lists_length [of bs "replicate (length V) [False, True]"] by simp
      with Cons.prems
        have "distinct (map fst (zip V bs))" "keys [(v, b)] \<inter> keys (zip V bs) = {}"
        by (auto simp: keys_def dest: set_zip_leftD)
      then show ?thesis by (simp add: dict_or_disjoint)
    qed
    from False Cons.prems am show ?thesis
      by (simp add: List.product_def o_def merge cong: map_cong)
  qed
qed


lemma bit_low: "i < 2 ^ n \<Longrightarrow> \<not> bit (i::nat) n"
  by (simp add: bit_iff_odd)

lemma bit_high: "i < 2 ^ n \<Longrightarrow> bit (i + 2 ^ n :: nat) n"
  by (simp add: bit_iff_odd div_add_self2)

lemma bit_add_pow: "j < n \<Longrightarrow> bit (i + 2 ^ n :: nat) j = bit i j"
proof (induction j arbitrary: i n)
  case 0
  then obtain n' where "n = Suc n'" by (cases n) auto
  then show ?case by (simp add: bit_0)
next
  case (Suc j)
  then obtain n' where n: "n = Suc n'" and jn: "j < n'" by (cases n) auto
  have "(i + 2 ^ n) div 2 = i div 2 + 2 ^ n'" unfolding n by simp
  then have "bit (i + 2 ^ n) (Suc j) = bit (i div 2 + 2 ^ n') j" by (simp only: bit_Suc)
  also have "\<dots> = bit (i div 2) j" by (rule Suc.IH [OF jn])
  also have "\<dots> = bit i (Suc j)" by (simp only: bit_Suc)
  finally show ?case .
qed

lemma upt_0_Suc: "[0..<Suc n] = 0 # map Suc [0..<n]"
  by (simp only: map_Suc_upt upt_conv_Cons [OF zero_less_Suc])

lemma counter_bits_Suc:
  "counter_bits (Suc n) i = bit i n # map (\<lambda>k. bit i (n - 1 - k)) [0..<n]"
  unfolding counter_bits_def upt_0_Suc by (simp add: o_def)

lemma counter_bits_Suc_low:
  "i < 2 ^ n \<Longrightarrow> counter_bits (Suc n) i = False # counter_bits n i"
  unfolding counter_bits_Suc by (simp add: bit_low counter_bits_def)

lemma counter_bits_Suc_high:
  "i < 2 ^ n \<Longrightarrow> counter_bits (Suc n) (i + 2 ^ n) = True # counter_bits n i"
  unfolding counter_bits_Suc by (simp add: bit_high counter_bits_def bit_add_pow)

lemma upt_double: "[0..<m + m] = [0..<m] @ map (\<lambda>i. i + m) [0..<m]"
  using upt_add_eq_append [of 0 m m] map_add_upt [of m m] by simp

lemma product_lists_counter:
  "product_lists (replicate n [False, True]) = map (counter_bits n) [0..<2 ^ n]"
proof (induction n)
  case 0
  show ?case by (simp add: counter_bits_def)
next
  case (Suc n)
  have "map (counter_bits (Suc n)) [0..<2 ^ Suc n] =
        map (counter_bits (Suc n)) [0..<2 ^ n] @ map (\<lambda>i. counter_bits (Suc n) (i + 2 ^ n)) [0..<2 ^ n]"
    by (simp add: upt_double [of "2 ^ n"] o_def mult_2)
  also have "map (counter_bits (Suc n)) [0..<2 ^ n] = map (\<lambda>i. False # counter_bits n i) [0..<2 ^ n]"
    by (rule map_cong) (simp_all add: counter_bits_Suc_low)
  also have "map (\<lambda>i. counter_bits (Suc n) (i + 2 ^ n)) [0..<2 ^ n] = map (\<lambda>i. True # counter_bits n i) [0..<2 ^ n]"
    by (rule map_cong) (simp_all add: counter_bits_Suc_high)
  finally show ?case by (simp add: Suc.IH o_def)
qed



lemma distinct_counter_models:
  assumes "distinct V"
  shows "distinct (map (zip V) (product_lists (replicate (length V) [False, True])))"
proof -
  let ?P = "product_lists (replicate (length V) [False, True])"
  have d: "distinct ?P" by (rule distinct_product_lists) simp
  have len: "length bs = length V" if "bs \<in> set ?P" for bs
    using in_set_product_lists_length [OF that] by simp
  have "inj_on (zip V) (set ?P)"
  proof (rule inj_onI)
    fix a b assume "a \<in> set ?P" "b \<in> set ?P" "zip V a = zip V b"
    then have "map snd (zip V a) = map snd (zip V b)" "length a = length V" "length b = length V"
      by (simp_all add: len)
    then show "a = b" by simp
  qed
  with d show ?thesis by (simp add: distinct_map)
qed

text \<open>
  Claim C5: for a non-empty list of distinct variable names \<open>all_models\<close> yields the
  \<open>2^n\<close> assignments over these names, each once, in the order of a binary counter:
  the \<open>i\<close>-th model binds the \<open>k\<close>-th name to bit \<open>n - 1 - k\<close> of \<open>i\<close>, so the first
  name is the most significant bit and false comes before true. For \<open>['p', 'q']\<close> and
  for \<open>['q', 'p']\<close> the models are FF, FT, TF, TT.
\<close>

theorem all_models_binary_counter:
  assumes "V \<noteq> []" and "distinct V" and "\<forall>v\<in>set V. is_variable v = Inr True"
  shows "\<exists>ms. all_models V = Inr (Some ms) \<and> length ms = 2 ^ length V \<and> distinct ms \<and>
           ms = map (\<lambda>i. zip V (counter_bits (length V) i)) [0..<2 ^ length V] \<and>
           all_models [''p'', ''q''] =
             Inr (Some [[(''p'', False), (''q'', False)], [(''p'', False), (''q'', True)],
                        [(''p'', True), (''q'', False)], [(''p'', True), (''q'', True)]]) \<and>
           all_models [''q'', ''p''] =
             Inr (Some [[(''q'', False), (''p'', False)], [(''q'', False), (''p'', True)],
                        [(''q'', True), (''p'', False)], [(''q'', True), (''p'', True)]])"
proof -
  let ?ms = "map (zip V) (product_lists (replicate (length V) [False, True]))"
  have am: "all_models V = Inr (Some ?ms)" using assms by (rule all_models_distinct)
  have eq: "?ms = map (\<lambda>i. zip V (counter_bits (length V) i)) [0..<2 ^ length V]"
    by (simp add: product_lists_counter o_def)
  have len: "length ?ms = 2 ^ length V" unfolding eq by simp
  have d: "distinct ?ms" using assms(2) by (rule distinct_counter_models)
  have ex: "all_models [''p'', ''q''] =
             Inr (Some [[(''p'', False), (''q'', False)], [(''p'', False), (''q'', True)],
                        [(''p'', True), (''q'', False)], [(''p'', True), (''q'', True)]])"
    "all_models [''q'', ''p''] =
             Inr (Some [[(''q'', False), (''p'', False)], [(''q'', False), (''p'', True)],
                        [(''q'', True), (''p'', False)], [(''q'', True), (''p'', True)]])"
    by (simp_all add: dict_or_def)
  from am eq len d ex show ?thesis by metis
qed

theorem all_models_binary_counter_witness:
  "\<exists>ms. all_models [''p'', ''q'', ''r''] = Inr (Some ms) \<and> length ms = 8 \<and>
     ms ! 5 = [(''p'', True), (''q'', False), (''r'', True)]"
proof -
  have "\<exists>ms. all_models [''p'', ''q'', ''r''] = Inr (Some ms) \<and>
           length ms = 2 ^ length [''p'', ''q'', ''r''] \<and> distinct ms \<and>
           ms = map (\<lambda>i. zip [''p'', ''q'', ''r''] (counter_bits (length [''p'', ''q'', ''r'']) i))
                  [0..<2 ^ length [''p'', ''q'', ''r'']] \<and>
           all_models [''p'', ''q''] =
             Inr (Some [[(''p'', False), (''q'', False)], [(''p'', False), (''q'', True)],
                        [(''p'', True), (''q'', False)], [(''p'', True), (''q'', True)]]) \<and>
           all_models [''q'', ''p''] =
             Inr (Some [[(''q'', False), (''p'', False)], [(''q'', False), (''p'', True)],
                        [(''q'', True), (''p'', False)], [(''q'', True), (''p'', True)]])"
    by (rule all_models_binary_counter) simp_all
  then obtain ms where ms: "all_models [''p'', ''q'', ''r''] = Inr (Some ms)"
    "ms = map (\<lambda>i. zip [''p'', ''q'', ''r''] (counter_bits (length [''p'', ''q'', ''r'']) i))
            [0..<2 ^ length [''p'', ''q'', ''r'']]" by blast
  have "length ms = 8" unfolding ms(2) by simp
  moreover have "ms ! 5 = [(''p'', True), (''q'', False), (''r'', True)]"
    unfolding ms(2) by (simp add: counter_bits_def upt_rec bit_iff_odd)
  ultimately show ?thesis using ms(1) by simp
qed

text \<open>
  Claim C7: \<open>all_models\<close> of the empty list of variables returns an empty sequence, one
  that yields no assignment.

  The source does not do this. The \<open>for\<close> loop of \<open>all_models\<close> has no round to return
  from, the function reaches its end, and the result is \<open>None\<close>, which is no sequence
  and cannot be iterated, while the docstring and the annotation of \<open>all_models\<close>
  promise an iterable over the models.
\<close>

theorem all_models_empty_is_None:
  "all_models [] = Inr None \<and> all_models [] \<noteq> Inr (Some [])"
  by simp

section \<open>Evaluation\<close>

lemma spec_evaluate_agree:
  "wf_formula f \<Longrightarrow> \<forall>x\<in>vars_of f. map_of m1 x = map_of m2 x
     \<Longrightarrow> spec_evaluate f m1 = spec_evaluate f m2"
proof (induction f rule: wf_formula_induct)
  case (Var x) then show ?case by simp
next
  case (Const c) then show ?case by (auto simp: is_constant_def)
next
  case (Neg a) then show ?case by (simp add: is_unary_kinds is_unary_def)
next
  case (Bin op a b) then show ?case by (simp add: is_binary_kinds)
qed

text \<open>
  Claim C9: for every formula \<open>f\<close> and every valid model \<open>m\<close> that is sufficient for \<open>f\<close>,
  \<open>evaluate(f, m)\<close> returns, and returns the truth value that the node-by-node
  semantics of the specification gives: the bound value for a variable, true for \<open>T\<close>
  and false for \<open>F\<close>, the negation for \<open>~\<close>, and conjunction, disjunction and
  material implication for \<open>&\<close>, \<open>|\<close> and \<open>->\<close>.
\<close>

theorem evaluate_node_semantics:
  assumes "wf_formula f" and "is_model m = Inr True"
    and "Formula_variables f = Inr vs" and "variables m = Inr ks" and "vs \<subseteq> ks"
  shows "evaluate f m = Inr (spec_evaluate f m)"
proof -
  from assms(1,3) have "vs = vars_of f" by (simp add: Formula_variables_wf)
  moreover from assms(2,4) have "ks = keys m" by (simp add: variables_model)
  ultimately show ?thesis using assms(1,2,5) by (simp add: evaluate_spec)
qed

theorem evaluate_node_semantics_witness:
  "evaluate (Formula ''~'' (Some (Formula ''&'' (Some (Formula ''p'' None None))
                                             (Some (Formula ''q76'' None None)))) None)
     [(''p'', True), (''q76'', False)] = Inr True"
  using evaluate_node_semantics
    [of "Formula ''~'' (Some (Formula ''&'' (Some (Formula ''p'' None None))
                                           (Some (Formula ''q76'' None None)))) None"
        "[(''p'', True), (''q76'', False)]" "{''p'', ''q76''}" "{''p'', ''q76''}"]
  by (simp add: is_constant_def is_unary_def is_binary_def isdecimal_def isdecimal_char_def
        variables_def keys_def)

text \<open>
  Claim C10: two valid models that are both sufficient for a formula and agree on each
  of its variables give it the same truth value; bindings of other names have no
  influence.
\<close>

theorem evaluate_agree:
  assumes "wf_formula f" and "is_model m1 = Inr True" and "is_model m2 = Inr True"
    and "Formula_variables f = Inr vs"
    and "vs \<subseteq> keys m1" and "vs \<subseteq> keys m2"
    and "\<forall>x\<in>vs. map_of m1 x = map_of m2 x"
  shows "\<exists>b. evaluate f m1 = Inr b \<and> evaluate f m2 = Inr b"
proof -
  from assms(1,4) have vs: "vs = vars_of f" by (simp add: Formula_variables_wf)
  with assms have "evaluate f m1 = Inr (spec_evaluate f m1)"
    and "evaluate f m2 = Inr (spec_evaluate f m2)"
    by (simp_all add: evaluate_spec)
  moreover from assms(1,7) vs have "spec_evaluate f m1 = spec_evaluate f m2"
    by (simp add: spec_evaluate_agree)
  ultimately show ?thesis by simp
qed

theorem evaluate_agree_witness:
  "\<exists>b. evaluate (Formula ''~'' (Some (Formula ''p'' None None)) None) [(''p'', True)] = Inr b \<and>
       evaluate (Formula ''~'' (Some (Formula ''p'' None None)) None)
         [(''q'', True), (''p'', True), (''r3'', False)] = Inr b"
  using evaluate_agree
    [of "Formula ''~'' (Some (Formula ''p'' None None)) None" "[(''p'', True)]"
        "[(''q'', True), (''p'', True), (''r3'', False)]" "{''p''}"]
  by (simp add: is_constant_def is_unary_def isdecimal_def isdecimal_char_def keys_def)

section \<open>Classification\<close>

lemma vars_of_valid: "wf_formula f \<Longrightarrow> \<forall>v\<in>vars_of f. is_variable v = Inr True"
proof (induction f rule: wf_formula_induct)
  case (Var x) then show ?case by simp
next
  case (Const c) then show ?case by (simp add: is_constant_not_var)
next
  case (Neg a) then show ?case by (simp add: is_unary_kinds is_unary_def)
next
  case (Bin op a b) then show ?case by (auto simp: is_binary_kinds)
qed

lemma holds_in_all_spec:
  "wf_formula f \<Longrightarrow> \<forall>m\<in>set ms. is_model m = Inr True \<and> vars_of f \<subseteq> keys m
     \<Longrightarrow> holds_in_all f ms = Inr (\<forall>m\<in>set ms. spec_evaluate f m)"
  by (induction ms) (auto simp: evaluate_spec)

lemma Formula_init_Neg: "Formula_init ''~'' (Some f) None = Inr (Formula ''~'' (Some f) None)"
  by (simp add: Formula_init_def is_constant_def is_unary_def)

lemma Formula_init_Bin:
  "is_binary op \<Longrightarrow> Formula_init op (Some a) (Some b) = Inr (Formula op (Some a) (Some b))"
  by (simp add: Formula_init_def is_binary_kinds)

lemma Formula_init_Var:
  "is_variable x = Inr True \<Longrightarrow> Formula_init x None None = Inr (Formula x None None)"
  by (simp add: Formula_init_def)

lemma vars_of_Neg: "vars_of (Formula ''~'' (Some f) None) = vars_of f"
  by simp

lemma spec_evaluate_Neg: "spec_evaluate (Formula ''~'' (Some f) None) m = (\<not> spec_evaluate f m)"
  by simp

lemma is_tautology_models:
  assumes "wf_formula f" and "set (list_of (vars_of f)) = vars_of f"
  obtains ms where "ms \<noteq> []"
    and "\<forall>m\<in>set ms. is_model m = Inr True \<and> vars_of f \<subseteq> keys m"
    and "\<And>g. wf_formula g \<Longrightarrow> vars_of g = vars_of f \<Longrightarrow>
           is_tautology list_of g = Inr (\<forall>m\<in>set ms. spec_evaluate g m)"
proof (cases "list_of (vars_of f) = []")
  case True
  with assms(2) have empty: "vars_of f = {}" by simp
  let ?ms = "[[(''p'', True)]] :: model list"
  have v: "is_model [(''p'', True)] = Inr True" by simp
  have "is_tautology list_of g = Inr (\<forall>m\<in>set ?ms. spec_evaluate g m)"
    if "wf_formula g" "vars_of g = vars_of f" for g
    using that True empty v by (simp add: is_tautology_def Formula_variables_wf evaluate_spec)
  with v empty show ?thesis by (intro that [of ?ms]) auto
next
  case False
  from assms have "\<forall>v\<in>set (list_of (vars_of f)). is_variable v = Inr True"
    using vars_of_valid [of f] by simp
  with False obtain ms where ms: "all_models (list_of (vars_of f)) = Inr (Some ms)" "ms \<noteq> []"
    "\<forall>m\<in>set ms. is_model m = Inr True \<and> keys m = set (list_of (vars_of f))"
    using all_models_props by blast
  have "is_tautology list_of g = Inr (\<forall>m\<in>set ms. spec_evaluate g m)"
    if "wf_formula g" "vars_of g = vars_of f" for g
    using that ms assms(2) by (simp add: is_tautology_def Formula_variables_wf holds_in_all_spec)
  with ms assms(2) show ?thesis by (intro that [of ms]) auto
qed

lemma is_satisfiable_models:
  assumes "wf_formula f" and "set (list_of (vars_of f)) = vars_of f"
  obtains ms where "ms \<noteq> []"
    and "\<forall>m\<in>set ms. is_model m = Inr True \<and> vars_of f \<subseteq> keys m"
    and "is_satisfiable list_of f = Inr (\<exists>m\<in>set ms. spec_evaluate f m)"
proof -
  let ?g = "Formula ''~'' (Some f) None"
  have g: "wf_formula ?g" "vars_of ?g = vars_of f"
    using assms(1) by (simp_all add: is_constant_def is_unary_def)
  from assms obtain ms where ms: "ms \<noteq> []"
    "\<forall>m\<in>set ms. is_model m = Inr True \<and> vars_of f \<subseteq> keys m"
    and taut: "\<And>g. wf_formula g \<Longrightarrow> vars_of g = vars_of f \<Longrightarrow>
           is_tautology list_of g = Inr (\<forall>m\<in>set ms. spec_evaluate g m)"
    using is_tautology_models [of f list_of] by metis
  have "is_tautology list_of ?g = Inr (\<forall>m\<in>set ms. \<not> spec_evaluate f m)"
    using taut [OF g] by simp
  then have "is_satisfiable list_of f = Inr (\<exists>m\<in>set ms. spec_evaluate f m)"
    by (simp add: is_satisfiable_def is_contradiction_def Formula_init_Neg)
  with ms show ?thesis by (rule that)
qed

text \<open>
  Claim C8: for every formula exactly one of the three classifications holds:
  tautology, contradiction, or satisfiable and not a tautology; \<open>is_contradiction(f)\<close> is
  \<open>is_tautology\<close> of the negation of \<open>f\<close>, and \<open>is_satisfiable(f)\<close> is the negation of
  \<open>is_contradiction(f)\<close>. All three functions return. \<open>list_of\<close> is any way of
  listing the set of variables of \<open>f\<close>.
\<close>

theorem classifier_consistency:
  assumes "wf_formula f" and "Formula_variables f = Inr vs" and "set (list_of vs) = vs"
  shows "\<exists>t c s. is_tautology list_of f = Inr t \<and> is_contradiction list_of f = Inr c \<and>
           is_satisfiable list_of f = Inr s \<and>
           ((t \<and> \<not> c \<and> \<not> (s \<and> \<not> t)) \<or> (\<not> t \<and> c \<and> \<not> (s \<and> \<not> t)) \<or>
            (\<not> t \<and> \<not> c \<and> (s \<and> \<not> t))) \<and>
           is_contradiction list_of f = is_tautology list_of (Formula ''~'' (Some f) None) \<and>
           s = (\<not> c)"
proof -
  from assms(1,2) have vs: "vs = vars_of f" by (simp add: Formula_variables_wf)
  let ?g = "Formula ''~'' (Some f) None"
  have g: "wf_formula ?g" "vars_of ?g = vars_of f" using assms(1) by (simp_all add: is_constant_def is_unary_def)
  from assms(1,3) vs obtain ms where ms: "ms \<noteq> []"
    and taut: "\<And>g. wf_formula g \<Longrightarrow> vars_of g = vars_of f \<Longrightarrow>
           is_tautology list_of g = Inr (\<forall>m\<in>set ms. spec_evaluate g m)"
    using is_tautology_models [of f list_of] by metis
  have t: "is_tautology list_of f = Inr (\<forall>m\<in>set ms. spec_evaluate f m)"
    using taut [OF assms(1) refl] .
  have tg: "is_tautology list_of ?g = Inr (\<forall>m\<in>set ms. \<not> spec_evaluate f m)"
    using taut [OF g] by simp
  have c: "is_contradiction list_of f = Inr (\<forall>m\<in>set ms. \<not> spec_evaluate f m)"
    by (simp add: is_contradiction_def Formula_init_Neg tg)
  have s: "is_satisfiable list_of f = Inr (\<not> (\<forall>m\<in>set ms. \<not> spec_evaluate f m))"
    by (simp add: is_satisfiable_def c)
  from ms obtain m0 where "m0 \<in> set ms" by (cases ms) auto
  then
    have "\<not> ((\<forall>m\<in>set ms. spec_evaluate f m) \<and> (\<forall>m\<in>set ms. \<not> spec_evaluate f m))" by blast
  with t tg c s show ?thesis by auto
qed

theorem classifier_consistency_witness:
  "\<exists>t c s. is_tautology (\<lambda>S. [''p''])
              (Formula ''|'' (Some (Formula ''p'' None None))
                 (Some (Formula ''~'' (Some (Formula ''p'' None None)) None))) = Inr t \<and>
     is_contradiction (\<lambda>S. [''p''])
              (Formula ''|'' (Some (Formula ''p'' None None))
                 (Some (Formula ''~'' (Some (Formula ''p'' None None)) None))) = Inr c \<and>
     is_satisfiable (\<lambda>S. [''p''])
              (Formula ''|'' (Some (Formula ''p'' None None))
                 (Some (Formula ''~'' (Some (Formula ''p'' None None)) None))) = Inr s \<and>
     s = (\<not> c)"
  using classifier_consistency
    [of "Formula ''|'' (Some (Formula ''p'' None None))
                 (Some (Formula ''~'' (Some (Formula ''p'' None None)) None))" "{''p''}" "\<lambda>S. [''p'']"]
  by (simp add: is_constant_def is_unary_def is_binary_def) blast

section \<open>Synthesis\<close>

lemma join_Nil: "join op f [] = f" by (simp add: join_def)
lemma join_Cons: "join op f (c # cs) = join op (Formula op (Some f) (Some c)) cs"
  by (simp add: join_def)

lemma atom_valid: "is_variable v = Inr True \<Longrightarrow> atom v = Inr (Formula v None None)"
  by (simp add: atom_def Formula_init_Var)

lemma negated_atom_valid:
  "is_variable v = Inr True \<Longrightarrow>
     negated_atom v = Inr (Formula ''~'' (Some (Formula v None None)) None)"
  by (simp add: negated_atom_def Formula_init_Var Formula_init_Neg)

lemma atom_op_negation_valid:
  "is_variable v = Inr True \<Longrightarrow> is_binary op \<Longrightarrow>
     atom_op_negation op v =
       Inr (Formula op (Some (Formula v None None))
              (Some (Formula ''~'' (Some (Formula v None None)) None)))"
  by (simp add: atom_op_negation_def atom_valid negated_atom_valid Formula_init_Bin)

lemma append_each_total:
  "\<forall>x\<in>set xs. g x = Inr (h x) \<Longrightarrow> append_each g xs lst = Inr (lst @ map h xs)"
  by (induction xs arbitrary: lst) auto

lemma join_clauses_join:
  "is_binary op \<Longrightarrow> join_clauses op f cs = Inr (join op f cs)"
  by (induction cs arbitrary: f) (auto simp: Formula_init_Bin join_Nil join_Cons)

lemma rows_loop_skip:
  "\<forall>b\<in>set values. b \<noteq> want \<Longrightarrow> rows_loop row want models ind values ands has = Inr (ands, has)"
  by (induction "values" arbitrary: ind) auto

lemma wf_join:
  "is_binary op \<Longrightarrow> wf_formula (join op f cs) = (wf_formula f \<and> (\<forall>c\<in>set cs. wf_formula c))"
  by (induction cs arbitrary: f) (auto simp: join_Nil join_Cons wf_Bin simp del: wf_formula.simps)

lemma vars_of_Bin:
  "is_binary op \<Longrightarrow> vars_of (Formula op (Some a) (Some b)) = vars_of a \<union> vars_of b"
  by (simp add: is_binary_kinds)

lemma vars_of_join:
  "is_binary op \<Longrightarrow> vars_of (join op f cs) = vars_of f \<union> (\<Union>c\<in>set cs. vars_of c)"
  by (induction cs arbitrary: f) (auto simp: join_Nil join_Cons vars_of_Bin simp del: vars_of.simps)

lemma spec_evaluate_join_or:
  "spec_evaluate (join ''|'' f cs) m = (spec_evaluate f m \<or> (\<exists>c\<in>set cs. spec_evaluate c m))"
  by (induction cs arbitrary: f) (auto simp: join_Nil join_Cons)

lemma spec_evaluate_join_and:
  "spec_evaluate (join ''&'' f cs) m = (spec_evaluate f m \<and> (\<forall>c\<in>set cs. spec_evaluate c m))"
  by (induction cs arbitrary: f) (auto simp: join_Nil join_Cons)

lemma contradiction_of_props:
  assumes "is_variable v = Inr True"
  shows "wf_formula (contradiction_of v)" "vars_of (contradiction_of v) = {v}"
    "\<not> spec_evaluate (contradiction_of v) m"
  using assms by (simp_all add: contradiction_of_def is_binary_def is_constant_def is_unary_def)

lemma synthesize_all_false:
  assumes "V \<noteq> []" and "\<forall>v\<in>set V. is_variable v = Inr True" and "\<forall>b\<in>set values. \<not> b"
  shows "synthesize V values = Inr (join ''|'' (contradiction_of (hd V)) (map contradiction_of (tl V)))"
proof -
  from assms(1,2) obtain ms where "all_models V = Inr (Some ms)"
    using all_models_props by blast
  moreover have "rows_loop synthesize_for_model True (Some ms) 0 values [] False = Inr ([], False)"
    using assms(3) by (intro rows_loop_skip) auto
  moreover have "append_each (atom_op_negation ''&'') V [] = Inr ([] @ map contradiction_of V)"
    using assms(2)
    by (intro append_each_total) (simp add: atom_op_negation_valid is_binary_def contradiction_of_def)
  moreover from assms(1) have "V = hd V # tl V" by simp
  then have "map contradiction_of V = contradiction_of (hd V) # map contradiction_of (tl V)"
    by (metis list.simps(9))
  ultimately show ?thesis using assms(1)
    by (simp add: synthesize_def join_clauses_join is_binary_def)
qed

lemma truth_values_spec:
  "wf_formula f \<Longrightarrow> \<forall>m\<in>set ms. is_model m = Inr True \<and> vars_of f \<subseteq> keys m
     \<Longrightarrow> truth_values f ms = Inr (map (spec_evaluate f) ms)"
  by (induction ms) (auto simp: evaluate_spec)

lemma literal_props:
  assumes "is_variable k = Inr True"
  shows "wf_formula (literal (k, b))" "vars_of (literal (k, b)) = {k}"
  using assms by (simp_all add: literal_def is_constant_def is_unary_def)

lemma spec_evaluate_literal:
  assumes "is_variable k = Inr True" and "k \<in> keys m'"
  shows "spec_evaluate (literal (k, b)) m' = (map_of m' k = Some b)"
proof -
  from assms(2) obtain c where "map_of m' k = Some c"
    by (auto simp: keys_def dest: weak_map_of_SomeI)
  moreover from assms(1) have "k \<noteq> ''T''" "k \<noteq> ''F''" by auto
  ultimately show ?thesis by (auto simp: literal_def)
qed

lemma is_model_valid: "is_model m = Inr True \<Longrightarrow> kv \<in> set m \<Longrightarrow> is_variable (fst kv) = Inr True"
  by (auto simp: is_model_iff keys_def)

lemma hd_tl_set: "m \<noteq> [] \<Longrightarrow> insert (hd m) (set (tl m)) = set m"
  by (cases m) auto

lemma row_clause_props:
  assumes "m \<noteq> []" and "is_model m = Inr True"
  shows "wf_formula (row_clause m)" and "vars_of (row_clause m) = keys m"
    and "keys m \<subseteq> keys m' \<Longrightarrow> spec_evaluate (row_clause m) m' = agrees m m'"
proof -
  have bin: "is_binary ''&''" by (simp add: is_binary_def)
  from assms(1) have hd: "hd m \<in> set m" and tl: "set (tl m) \<subseteq> set m"
    by (simp_all add: list.set_sel(2) subsetI)
  have valid: "is_variable (fst kv) = Inr True" if "kv \<in> set m" for kv
    using assms(2) that by (rule is_model_valid)
  have lit: "wf_formula (literal kv)" "vars_of (literal kv) = {fst kv}" if "kv \<in> set m" for kv
    using literal_props [OF valid [OF that], of "snd kv"] by simp_all
  show "wf_formula (row_clause m)"
    unfolding row_clause_def using hd tl lit(1) by (auto simp: wf_join [OF bin])
  have "(\<Union>kv\<in>set (tl m). vars_of (literal kv)) = (\<Union>kv\<in>set (tl m). {fst kv})"
    using tl lit(2) by (intro SUP_cong refl) blast
  then have "vars_of (row_clause m) = {fst (hd m)} \<union> (\<Union>kv\<in>set (tl m). {fst kv})"
    unfolding row_clause_def using lit(2) [OF hd] by (simp add: vars_of_join [OF bin])
  also have "\<dots> = fst ` insert (hd m) (set (tl m))" by auto
  also have "\<dots> = keys m" by (simp add: hd_tl_set [OF assms(1)] keys_def)
  finally show "vars_of (row_clause m) = keys m" .
  assume sub: "keys m \<subseteq> keys m'"
  have ev: "spec_evaluate (literal kv) m' = (map_of m' (fst kv) = Some (snd kv))"
    if "kv \<in> set m" for kv
  proof -
    from that sub have "fst kv \<in> keys m'" by (auto simp: keys_def)
    from spec_evaluate_literal [OF valid [OF that] this, of "snd kv"] show ?thesis by simp
  qed
  have "spec_evaluate (row_clause m) m' =
          (\<forall>kv\<in>insert (hd m) (set (tl m)). map_of m' (fst kv) = Some (snd kv))"
    unfolding row_clause_def spec_evaluate_join_and using hd tl ev by auto
  then show "spec_evaluate (row_clause m) m' = agrees m m'"
    by (simp add: hd_tl_set [OF assms(1)] agrees_def)
qed

lemma except_clause_props:
  assumes "m \<noteq> []" and "is_model m = Inr True"
  shows "wf_formula (except_clause m)" and "vars_of (except_clause m) = keys m"
    and "keys m \<subseteq> keys m' \<Longrightarrow> spec_evaluate (except_clause m) m' = (\<not> agrees m m')"
proof -
  have bin: "is_binary ''|''" by (simp add: is_binary_def)
  let ?l = "\<lambda>kv. literal (fst kv, \<not> snd kv)"
  from assms(1) have hd: "hd m \<in> set m" and tl: "set (tl m) \<subseteq> set m"
    by (simp_all add: list.set_sel(2) subsetI)
  have valid: "is_variable (fst kv) = Inr True" if "kv \<in> set m" for kv
    using assms(2) that by (rule is_model_valid)
  have lit: "wf_formula (?l kv)" "vars_of (?l kv) = {fst kv}" if "kv \<in> set m" for kv
    using literal_props [OF valid [OF that], of "\<not> snd kv"] by simp_all
  show "wf_formula (except_clause m)"
    unfolding except_clause_def using hd tl lit(1) by (auto simp: wf_join [OF bin])
  have "(\<Union>kv\<in>set (tl m). vars_of (?l kv)) = (\<Union>kv\<in>set (tl m). {fst kv})"
    using tl lit(2) by (intro SUP_cong refl) blast
  then
    have "vars_of (except_clause m) = {fst (hd m)} \<union> (\<Union>kv\<in>set (tl m). {fst kv})"
    unfolding except_clause_def using lit(2) [OF hd] by (simp add: vars_of_join [OF bin])
  also have "\<dots> = fst ` insert (hd m) (set (tl m))" by auto
  also have "\<dots> = keys m" by (simp add: hd_tl_set [OF assms(1)] keys_def)
  finally show "vars_of (except_clause m) = keys m" .
  assume sub: "keys m \<subseteq> keys m'"
  have ev: "spec_evaluate (?l kv) m' = (map_of m' (fst kv) \<noteq> Some (snd kv))"
    if "kv \<in> set m" for kv
  proof -
    from that sub have k: "fst kv \<in> keys m'" by (auto simp: keys_def)
    then obtain c where "map_of m' (fst kv) = Some c"
      by (auto simp: keys_def dest: weak_map_of_SomeI)
    with spec_evaluate_literal [OF valid [OF that] k, of "\<not> snd kv"] show ?thesis by auto
  qed
  have "spec_evaluate (except_clause m) m' =
          (\<exists>kv\<in>insert (hd m) (set (tl m)). map_of m' (fst kv) \<noteq> Some (snd kv))"
    unfolding except_clause_def spec_evaluate_join_or using hd tl ev by auto
  then show "spec_evaluate (except_clause m) m' = (\<not> agrees m m')"
    by (simp add: hd_tl_set [OF assms(1)] agrees_def)
qed

lemma synthesize_for_model_row:
  assumes "m \<noteq> []" and "is_model m = Inr True" and "distinct (map fst m)"
  shows "synthesize_for_model m = Inr (row_clause m)"
proof -
  let ?g = "\<lambda>key. case map_of m key of None \<Rightarrow> Inl KeyError
              | Some b \<Rightarrow> if b then atom key else negated_atom key"
  have "?g key = Inr (literal (key, the (map_of m key)))" if "key \<in> set (map fst m)" for key
  proof -
    from that obtain b where b: "(key, b) \<in> set m" by auto
    with assms(3) have "map_of m key = Some b" by simp
    moreover from is_model_valid [OF assms(2) b] have "is_variable key = Inr True" by simp
    ultimately show ?thesis by (simp add: atom_valid negated_atom_valid literal_def)
  qed
  then have "append_each ?g (map fst m) [] =
               Inr ([] @ map (\<lambda>key. literal (key, the (map_of m key))) (map fst m))"
    by (intro append_each_total) blast
  moreover have "map (\<lambda>key. literal (key, the (map_of m key))) (map fst m) = map literal m"
    using assms(3) by (auto simp: o_def)
  moreover from assms(1) have "map literal m = literal (hd m) # map literal (tl m)"
    by (cases m) auto
  ultimately show ?thesis using assms(1,2)
    by (simp add: synthesize_for_model_def row_clause_def join_clauses_join is_binary_def join_Nil)
qed

lemma synthesize_for_all_except_model_clause:
  assumes "m \<noteq> []" and "is_model m = Inr True"
  shows "synthesize_for_all_except_model m = Inr (except_clause m)"
proof -
  let ?g = "\<lambda>(variable, flag). if flag then negated_atom variable else atom variable"
  let ?l = "\<lambda>kv. literal (fst kv, \<not> snd kv)"
  have "?g kv = Inr (?l kv)" if "kv \<in> set m" for kv
    using is_model_valid [OF assms(2) that]
    by (cases kv) (simp add: atom_valid negated_atom_valid literal_def)
  then have "append_each ?g m [] = Inr ([] @ map ?l m)"
    by (intro append_each_total) blast
  moreover from assms(1) have "map ?l m = ?l (hd m) # map ?l (tl m)"
    by (cases m) auto
  ultimately show ?thesis using assms(1,2)
    by (simp add: synthesize_for_all_except_model_def except_clause_def join_clauses_join
          is_binary_def)
qed

lemma selected_Nil: "selected want ms [] = []" by (simp add: selected_def)

lemma selected_Cons:
  "selected want (m # ms) (b # vs) = (if b = want then [m] else []) @ selected want ms vs"
  by (simp add: selected_def)

lemma rows_loop_selected:
  "ind + length vs \<le> length ms \<Longrightarrow> \<forall>m\<in>set ms. row m = Inr (h m) \<Longrightarrow>
     rows_loop row want (Some ms) ind vs ands has =
       Inr (ands @ map h (selected want (drop ind ms) vs), has \<or> want \<in> set vs)"
proof (induction vs arbitrary: ind ands has)
  case Nil
  show ?case by (simp add: selected_Nil)
next
  case (Cons b vs)
  from Cons.prems(1) have lt: "ind < length ms" and le: "Suc ind + length vs \<le> length ms"
    by simp_all
  have dr: "drop ind ms = ms ! ind # drop (Suc ind) ms" using lt by (rule Cons_nth_drop_Suc [symmetric])
  from lt Cons.prems(2) have row: "row (ms ! ind) = Inr (h (ms ! ind))" by simp
  show ?case
    using lt row Cons.IH [OF le Cons.prems(2)]
    by (auto simp: dr selected_Cons)
qed

lemma set_selected:
  "length ms = length vs \<Longrightarrow>
     set (selected want ms vs) = {ms ! i | i. i < length ms \<and> vs ! i = want}"
proof -
  assume len: "length ms = length vs"
  have "set (selected want ms vs) = fst ` {mb \<in> set (zip ms vs). snd mb = want}"
    by (simp add: selected_def)
  also have "\<dots> = {ms ! i | i. i < length ms \<and> vs ! i = want}"
    using len by (force simp: set_zip)
  finally show ?thesis .
qed

lemma agrees_zip:
  assumes "distinct V" and "length bs = length V" and "length bs' = length V"
  shows "agrees (zip V bs) (zip V bs') = (zip V bs = zip V bs')"
proof
  assume a: "agrees (zip V bs) (zip V bs')"
  have "bs = bs'"
  proof (rule nth_equalityI)
    show "length bs = length bs'" using assms by simp
    fix i assume i: "i < length bs"
    with assms have "(V ! i, bs ! i) \<in> set (zip V bs)" by (auto simp: set_zip)
    with a have "map_of (zip V bs') (V ! i) = Some (bs ! i)" by (auto simp: agrees_def)
    moreover have "map_of (zip V bs') (V ! i) = Some (bs' ! i)"
      using assms i by (intro map_of_zip_nth) simp_all
    ultimately show "bs ! i = bs' ! i" by simp
  qed
  then show "zip V bs = zip V bs'" by simp
next
  assume "zip V bs = zip V bs'"
  moreover have "agrees (zip V bs') (zip V bs')"
  proof -
    have "distinct (map fst (zip V bs'))" using assms by simp
    then show ?thesis by (auto simp: agrees_def)
  qed
  ultimately show "agrees (zip V bs) (zip V bs')" by simp
qed

lemma member_selected:
  assumes "distinct ms" and "length ms = length vs" and "i < length ms"
  shows "(ms ! i \<in> set (selected want ms vs)) = (vs ! i = want)"
  using assms by (auto simp: set_selected nth_eq_iff_index_eq)

lemma join_list_props:
  assumes "cs \<noteq> []" and "is_binary op"
  shows "wf_formula (join op (hd cs) (tl cs)) = (\<forall>c\<in>set cs. wf_formula c)"
    and "vars_of (join op (hd cs) (tl cs)) = (\<Union>c\<in>set cs. vars_of c)"
    and "spec_evaluate (join ''|'' (hd cs) (tl cs)) m = (\<exists>c\<in>set cs. spec_evaluate c m)"
    and "spec_evaluate (join ''&'' (hd cs) (tl cs)) m = (\<forall>c\<in>set cs. spec_evaluate c m)"
proof -
  from assms(1) obtain c cs' where cs: "cs = c # cs'" by (cases cs) auto
  show "wf_formula (join op (hd cs) (tl cs)) = (\<forall>c\<in>set cs. wf_formula c)"
    unfolding cs by (simp add: wf_join [OF assms(2)] del: wf_formula.simps)
  show "vars_of (join op (hd cs) (tl cs)) = (\<Union>c\<in>set cs. vars_of c)"
    unfolding cs by (simp add: vars_of_join [OF assms(2)] del: vars_of.simps)
  show "spec_evaluate (join ''|'' (hd cs) (tl cs)) m = (\<exists>c\<in>set cs. spec_evaluate c m)"
    unfolding cs by (simp add: spec_evaluate_join_or del: spec_evaluate.simps)
  show "spec_evaluate (join ''&'' (hd cs) (tl cs)) m = (\<forall>c\<in>set cs. spec_evaluate c m)"
    unfolding cs by (simp add: spec_evaluate_join_and del: spec_evaluate.simps)
qed



lemma tautology_of_props:
  assumes "is_variable v = Inr True"
  shows "wf_formula (tautology_of v)" "vars_of (tautology_of v) = {v}"
    "spec_evaluate (tautology_of v) m"
  using assms by (simp_all add: tautology_of_def is_binary_def is_constant_def is_unary_def)

text \<open>The models of a list of distinct names, with what the synthesis needs of them.\<close>

lemma all_models_table:
  assumes "V \<noteq> []" and "distinct V" and "\<forall>v\<in>set V. is_variable v = Inr True"
  obtains ms where "all_models V = Inr (Some ms)" and "distinct ms"
    and "length ms = 2 ^ length V"
    and "\<forall>m\<in>set ms. m \<noteq> [] \<and> is_model m = Inr True \<and> keys m = set V \<and> distinct (map fst m)"
    and "\<forall>m\<in>set ms. \<forall>m'\<in>set ms. agrees m m' = (m = m')"
proof -
  let ?P = "product_lists (replicate (length V) [False, True])"
  let ?ms = "map (zip V) ?P"
  have am: "all_models V = Inr (Some ?ms)" using assms by (rule all_models_distinct)
  have d: "distinct ?ms" using assms(2) by (rule distinct_counter_models)
  have len: "length ?ms = 2 ^ length V" by (simp add: product_lists_counter)
  have bs: "\<exists>bs. m = zip V bs \<and> length bs = length V" if "m \<in> set ?ms" for m
  proof -
    from that obtain bs where "m = zip V bs" "bs \<in> set ?P" by auto
    with in_set_product_lists_length [of bs "replicate (length V) [False, True]"]
    show ?thesis by auto
  qed
  from assms(1,3) am
    have valid: "\<forall>m\<in>set ?ms. is_model m = Inr True \<and> keys m = set V"
    using all_models_props [of V] by auto
  have props: "m \<noteq> [] \<and> is_model m = Inr True \<and> keys m = set V \<and> distinct (map fst m)"
    if "m \<in> set ?ms" for m
  proof -
    from bs [OF that] obtain bs where m: "m = zip V bs" "length bs = length V" by blast
    with assms(1,2) have "m \<noteq> []" "distinct (map fst m)" by (cases V; cases bs; simp)+
    with valid that show ?thesis by blast
  qed
  have ag: "agrees m m' = (m = m')" if "m \<in> set ?ms" "m' \<in> set ?ms" for m m'
  proof -
    from bs [OF that(1)] bs [OF that(2)] obtain b b' where
      "m = zip V b" "length b = length V" "m' = zip V b'" "length b' = length V" by blast
    with agrees_zip [OF assms(2), of b b'] show ?thesis by simp
  qed
  from am d len props ag show ?thesis by (intro that [of ?ms]) blast+
qed

lemma per_variable_props:
  assumes "V \<noteq> []" and "is_binary op"
    and "\<forall>v\<in>set V. wf_formula (c v) \<and> vars_of (c v) = {v}"
  shows "wf_formula (join op (c (hd V)) (map c (tl V)))"
    and "vars_of (join op (c (hd V)) (map c (tl V))) = set V"
    and "spec_evaluate (join ''|'' (c (hd V)) (map c (tl V))) m = (\<exists>v\<in>set V. spec_evaluate (c v) m)"
    and "spec_evaluate (join ''&'' (c (hd V)) (map c (tl V))) m = (\<forall>v\<in>set V. spec_evaluate (c v) m)"
proof -
  let ?cs = "map c V"
  from assms(1) have cs: "?cs \<noteq> []" "hd ?cs = c (hd V)" "tl ?cs = map c (tl V)"
    by (simp_all add: hd_map map_tl)
  from join_list_props(1) [OF cs(1) assms(2)] assms(3)
  show "wf_formula (join op (c (hd V)) (map c (tl V)))" by (simp add: cs)
  from join_list_props(2) [OF cs(1) assms(2)] assms(3)
  show "vars_of (join op (c (hd V)) (map c (tl V))) = set V" by (simp add: cs)
  from join_list_props(3) [OF cs(1) assms(2), of m]
  show "spec_evaluate (join ''|'' (c (hd V)) (map c (tl V))) m = (\<exists>v\<in>set V. spec_evaluate (c v) m)"
    by (simp add: cs)
  from join_list_props(4) [OF cs(1) assms(2), of m]
  show "spec_evaluate (join ''&'' (c (hd V)) (map c (tl V))) m = (\<forall>v\<in>set V. spec_evaluate (c v) m)"
    by (simp add: cs)
qed

lemma synthesize_cnf_all_true:
  assumes "V \<noteq> []" and "\<forall>v\<in>set V. is_variable v = Inr True" and "\<forall>b\<in>set vs. b"
  shows "synthesize_cnf V vs = Inr (join ''&'' (tautology_of (hd V)) (map tautology_of (tl V)))"
proof -
  from assms(1,2) obtain ms where "all_models V = Inr (Some ms)"
    using all_models_props by blast
  moreover have "rows_loop synthesize_for_all_except_model False (Some ms) 0 vs [] False = Inr ([], False)"
    using assms(3) by (intro rows_loop_skip) auto
  moreover have "append_each (atom_op_negation ''|'') V [] = Inr ([] @ map tautology_of V)"
    using assms(2)
    by (intro append_each_total) (simp add: atom_op_negation_valid is_binary_def tautology_of_def)
  moreover from assms(1) have "V = hd V # tl V" by simp
  then have "map tautology_of V = tautology_of (hd V) # map tautology_of (tl V)"
    by (metis list.simps(9))
  ultimately show ?thesis using assms(1)
    by (simp add: synthesize_cnf_def join_clauses_join is_binary_def)
qed

lemma map_const_eq:
  "length ms = length vs \<Longrightarrow> \<forall>b\<in>set vs. b = c \<Longrightarrow> map (\<lambda>m. c) ms = vs"
  by (induction ms vs rule: list_induct2) auto

lemma map_member_eq:
  assumes "length ms = length vs" and "\<And>i. i < length ms \<Longrightarrow> P (ms ! i) = vs ! i"
  shows "map P ms = vs"
  using assms by (intro nth_equalityI) simp_all

lemma join_clauses_list:
  "cs \<noteq> [] \<Longrightarrow> is_binary op \<Longrightarrow>
     (case cs of [] \<Rightarrow> Inl IndexError | x # xa \<Rightarrow> join_clauses op x xa) =
       Inr (join op (hd cs) (tl cs))"
  by (cases cs) (simp_all add: join_clauses_join)

lemma synthesize_correct_on:
  assumes V: "V \<noteq> []" "\<forall>v\<in>set V. is_variable v = Inr True"
    and am: "all_models V = Inr (Some ms)" and d: "distinct ms"
    and len: "length ms = length vs"
    and props: "\<forall>m\<in>set ms. m \<noteq> [] \<and> is_model m = Inr True \<and> keys m = set V \<and> distinct (map fst m)"
    and ag: "\<forall>m\<in>set ms. \<forall>m'\<in>set ms. agrees m m' = (m = m')"
  shows "\<exists>f. synthesize V vs = Inr f \<and> truth_values f ms = Inr vs"
proof (cases "True \<in> set vs")
  case True
  let ?sel = "selected True ms vs"
  let ?cs = "map row_clause ?sel"
  let ?f = "join ''|'' (hd ?cs) (tl ?cs)"
  have bin: "is_binary ''|''" by (simp add: is_binary_def)
  have sub: "set ?sel \<subseteq> set ms" using len by (auto simp: set_selected)
  from True obtain i where "i < length vs" "vs ! i = True" by (auto simp: in_set_conv_nth)
  with len have "ms ! i \<in> set ?sel" by (auto simp: set_selected)
  then have ne: "?cs \<noteq> []" by auto
  have row: "\<forall>m\<in>set ms. synthesize_for_model m = Inr (row_clause m)"
    using props by (simp add: synthesize_for_model_row)
  have "rows_loop synthesize_for_model True (Some ms) 0 vs [] False =
          Inr ([] @ map row_clause (selected True (drop 0 ms) vs), False \<or> True \<in> set vs)"
    using len row by (intro rows_loop_selected) simp_all
  with True
    have rows: "rows_loop synthesize_for_model True (Some ms) 0 vs [] False = Inr (?cs, True)"
    by simp
  have syn: "synthesize V vs = Inr ?f"
    using V(1) am rows by (simp add: synthesize_def join_clauses_list [OF ne bin])
  have cl: "wf_formula (row_clause m) \<and> vars_of (row_clause m) = set V" if "m \<in> set ?sel" for m
    using that sub props row_clause_props(1,2) [of m] by auto
  have wf: "wf_formula ?f" using cl by (simp add: join_list_props(1) [OF ne bin])
  have "vars_of ?f = (\<Union>m\<in>set ?sel. set V)"
    using cl by (simp add: join_list_props(2) [OF ne bin])
  with ne have vars: "vars_of ?f = set V" by auto
  have ev: "spec_evaluate ?f m = (m \<in> set ?sel)" if "m \<in> set ms" for m
  proof -
    have "spec_evaluate (row_clause m') m = (m' = m)" if "m' \<in> set ?sel" for m'
    proof -
      from that sub have m': "m' \<in> set ms" by auto
      with props \<open>m \<in> set ms\<close>
        have "m' \<noteq> []" "is_model m' = Inr True" "keys m' \<subseteq> keys m"
        by auto
      from row_clause_props(3) [OF this] ag m' \<open>m \<in> set ms\<close> show ?thesis by simp
    qed
    then show ?thesis by (auto simp: join_list_props(3) [OF ne bin])
  qed
  have "truth_values ?f ms = Inr (map (spec_evaluate ?f) ms)"
    using wf vars props by (intro truth_values_spec) auto
  also have "map (spec_evaluate ?f) ms = vs"
  proof (rule map_member_eq [OF len])
    fix i assume i: "i < length ms"
    then have "spec_evaluate ?f (ms ! i) = (ms ! i \<in> set ?sel)" by (intro ev) simp
    also have "\<dots> = (vs ! i = True)" using d len i by (rule member_selected)
    finally show "spec_evaluate ?f (ms ! i) = vs ! i" by simp
  qed
  finally show ?thesis using syn by blast
next
  case False
  then have all: "\<forall>b\<in>set vs. \<not> b" by auto
  let ?f = "join ''|'' (contradiction_of (hd V)) (map contradiction_of (tl V))"
  have bin: "is_binary ''|''" by (simp add: is_binary_def)
  have c: "\<forall>v\<in>set V. wf_formula (contradiction_of v) \<and> vars_of (contradiction_of v) = {v}"
    using V(2) by (simp add: contradiction_of_props)
  have syn: "synthesize V vs = Inr ?f" using V all by (rule synthesize_all_false)
  have wf: "wf_formula ?f" and vars: "vars_of ?f = set V"
    using per_variable_props(1,2) [OF V(1) bin c] by simp_all
  have ev: "spec_evaluate ?f m = False" for m
    using per_variable_props(3) [OF V(1) bin c, of m] V(2) by (simp add: contradiction_of_props)
  have "truth_values ?f ms = Inr (map (spec_evaluate ?f) ms)"
    using wf vars props by (intro truth_values_spec) auto
  also have "map (spec_evaluate ?f) ms = vs"
    unfolding ev using len all by (intro map_const_eq) auto
  finally show ?thesis using syn by blast
qed

lemma synthesize_cnf_correct_on:
  assumes V: "V \<noteq> []" "\<forall>v\<in>set V. is_variable v = Inr True"
    and am: "all_models V = Inr (Some ms)" and d: "distinct ms"
    and len: "length ms = length vs"
    and props: "\<forall>m\<in>set ms. m \<noteq> [] \<and> is_model m = Inr True \<and> keys m = set V \<and> distinct (map fst m)"
    and ag: "\<forall>m\<in>set ms. \<forall>m'\<in>set ms. agrees m m' = (m = m')"
  shows "\<exists>f. synthesize_cnf V vs = Inr f \<and> truth_values f ms = Inr vs"
proof (cases "False \<in> set vs")
  case True
  let ?sel = "selected False ms vs"
  let ?cs = "map except_clause ?sel"
  let ?f = "join ''&'' (hd ?cs) (tl ?cs)"
  have bin: "is_binary ''&''" by (simp add: is_binary_def)
  have sub: "set ?sel \<subseteq> set ms" using len by (auto simp: set_selected)
  from True obtain i where "i < length vs" "vs ! i = False" by (auto simp: in_set_conv_nth)
  with len have "ms ! i \<in> set ?sel" by (auto simp: set_selected)
  then have ne: "?cs \<noteq> []" by auto
  have row: "\<forall>m\<in>set ms. synthesize_for_all_except_model m = Inr (except_clause m)"
    using props by (simp add: synthesize_for_all_except_model_clause)
  have "rows_loop synthesize_for_all_except_model False (Some ms) 0 vs [] False =
          Inr ([] @ map except_clause (selected False (drop 0 ms) vs), False \<or> False \<in> set vs)"
    using len row by (intro rows_loop_selected) simp_all
  with True have rows:
    "rows_loop synthesize_for_all_except_model False (Some ms) 0 vs [] False = Inr (?cs, True)"
    by simp
  have syn: "synthesize_cnf V vs = Inr ?f"
    using V(1) am rows by (simp add: synthesize_cnf_def join_clauses_list [OF ne bin])
  have cl: "wf_formula (except_clause m) \<and> vars_of (except_clause m) = set V"
    if "m \<in> set ?sel" for m
    using that sub props except_clause_props(1,2) [of m] by auto
  have wf: "wf_formula ?f" using cl by (simp add: join_list_props(1) [OF ne bin])
  have "vars_of ?f = (\<Union>m\<in>set ?sel. set V)"
    using cl by (simp add: join_list_props(2) [OF ne bin])
  with ne have vars: "vars_of ?f = set V" by auto
  have ev: "spec_evaluate ?f m = (m \<notin> set ?sel)" if "m \<in> set ms" for m
  proof -
    have "spec_evaluate (except_clause m') m = (m' \<noteq> m)" if "m' \<in> set ?sel" for m'
    proof -
      from that sub have m': "m' \<in> set ms" by auto
      with props \<open>m \<in> set ms\<close>
        have "m' \<noteq> []" "is_model m' = Inr True" "keys m' \<subseteq> keys m"
        by auto
      from except_clause_props(3) [OF this] ag m' \<open>m \<in> set ms\<close> show ?thesis by simp
    qed
    then show ?thesis by (auto simp: join_list_props(4) [OF ne bin])
  qed
  have "truth_values ?f ms = Inr (map (spec_evaluate ?f) ms)"
    using wf vars props by (intro truth_values_spec) auto
  also have "map (spec_evaluate ?f) ms = vs"
  proof (rule map_member_eq [OF len])
    fix i assume i: "i < length ms"
    then have "spec_evaluate ?f (ms ! i) = (ms ! i \<notin> set ?sel)" by (intro ev) simp
    also have "\<dots> = (\<not> (vs ! i = False))" using member_selected [OF d len i, of False] by simp
    finally show "spec_evaluate ?f (ms ! i) = vs ! i" by simp
  qed
  finally show ?thesis using syn by blast
next
  case False
  then have all: "\<forall>b\<in>set vs. b" by (metis (full_types))
  let ?f = "join ''&'' (tautology_of (hd V)) (map tautology_of (tl V))"
  have bin: "is_binary ''&''" by (simp add: is_binary_def)
  have c: "\<forall>v\<in>set V. wf_formula (tautology_of v) \<and> vars_of (tautology_of v) = {v}"
    using V(2) by (simp add: tautology_of_props)
  have syn: "synthesize_cnf V vs = Inr ?f" using V all by (rule synthesize_cnf_all_true)
  have wf: "wf_formula ?f" and vars: "vars_of ?f = set V"
    using per_variable_props(1,2) [OF V(1) bin c] by simp_all
  have ev: "spec_evaluate ?f m = True" for m
    using per_variable_props(4) [OF V(1) bin c, of m] V(2) by (simp add: tautology_of_props)
  have "truth_values ?f ms = Inr (map (spec_evaluate ?f) ms)"
    using wf vars props by (intro truth_values_spec) auto
  also have "map (spec_evaluate ?f) ms = vs"
    unfolding ev using len all by (intro map_const_eq) auto
  finally show ?thesis using syn by blast
qed

text \<open>
  Claim C6, as stated: when every entry of \<open>values\<close> is false, \<open>synthesize\<close> returns the
  conjunction of the clauses \<open>(v&~v)\<close>. It does not: the clauses are joined with \<open>|\<close>,
  as the clauses of every other table are; for \<open>['p', 'q']\<close> the result is
  \<open>((p&~p)|(q&~q))\<close>, not \<open>((p&~p)&(q&~q))\<close>.
\<close>

theorem synthesize_all_false_conjunction_counterexample:
  "synthesize [''p'', ''q''] [False, False, False, False] \<noteq>
     Inr (Formula ''&''
            (Some (Formula ''&'' (Some (Formula ''p'' None None))
                     (Some (Formula ''~'' (Some (Formula ''p'' None None)) None))))
            (Some (Formula ''&'' (Some (Formula ''q'' None None))
                     (Some (Formula ''~'' (Some (Formula ''q'' None None)) None)))))"
  by (simp add: synthesize_def dict_or_def atom_op_negation_def atom_def negated_atom_def
        Formula_init_def is_constant_def is_unary_def is_binary_def)

text \<open>
  Claim C6, amended: for a non-empty list \<open>V\<close> of variable names and \<open>values\<close> all false,
  \<open>synthesize\<close> returns the disjunction, from left to right and in the order of \<open>V\<close>, of
  the clauses \<open>(v&~v)\<close>. Its variables are the names in \<open>V\<close>, it is false in every valid
  model that binds them, and \<open>is_satisfiable\<close> returns \<open>False\<close> for it.
\<close>

theorem synthesize_all_false_disjunction:
  assumes "V \<noteq> []" and "\<forall>v\<in>set V. is_variable v = Inr True" and "\<forall>b\<in>set values. \<not> b"
  shows "\<exists>f. synthesize V values = Inr f \<and>
           f = foldl (\<lambda>g c. Formula ''|'' (Some g) (Some c))
                 (contradiction_of (hd V)) (map contradiction_of (tl V)) \<and>
           Formula_variables f = Inr (set V) \<and>
           (\<forall>m. is_model m = Inr True \<and> set V \<subseteq> keys m \<longrightarrow> evaluate f m = Inr False) \<and>
           (\<forall>list_of. set (list_of (set V)) = set V \<longrightarrow> is_satisfiable list_of f = Inr False)"
proof -
  let ?f = "join ''|'' (contradiction_of (hd V)) (map contradiction_of (tl V))"
  have bin: "is_binary ''|''" by (simp add: is_binary_def)
  from assms(1) have V: "V = hd V # tl V" by simp
  then
    have valid: "is_variable (hd V) = Inr True" "\<forall>v\<in>set (tl V). is_variable v = Inr True"
    using assms(2) by (metis list.set_intros(1), metis list.set_intros(2))
  have syn: "synthesize V values = Inr ?f" using assms by (rule synthesize_all_false)
  have wf: "wf_formula ?f"
    using valid by (simp add: wf_join [OF bin] contradiction_of_props del: wf_formula.simps)
  have "vars_of ?f = {hd V} \<union> set (tl V)"
    using valid by (auto simp: vars_of_join [OF bin] contradiction_of_props simp del: vars_of.simps)
  also have "\<dots> = set V" using V by (metis insert_is_Un list.simps(15))
  finally have vars: "vars_of ?f = set V" .
  have false: "\<not> spec_evaluate ?f m" for m
    using valid by (simp add: spec_evaluate_join_or contradiction_of_props del: spec_evaluate.simps)
  have ev: "evaluate ?f m = Inr False" if "is_model m = Inr True" "set V \<subseteq> keys m" for m
    using that wf vars false by (simp add: evaluate_spec)
  have sat: "is_satisfiable list_of ?f = Inr False" if "set (list_of (set V)) = set V" for list_of
  proof -
    from wf that vars obtain ms where
      "is_satisfiable list_of ?f = Inr (\<exists>m\<in>set ms. spec_evaluate ?f m)"
      using is_satisfiable_models [of ?f list_of] by metis
    with false show ?thesis by simp
  qed
  from syn wf vars ev sat show ?thesis
    by (simp add: join_def Formula_variables_wf)
qed

theorem synthesize_all_false_disjunction_witness:
  "synthesize [''p'', ''q''] [False, False, False, False] =
     Inr (Formula ''|''
            (Some (Formula ''&'' (Some (Formula ''p'' None None))
                     (Some (Formula ''~'' (Some (Formula ''p'' None None)) None))))
            (Some (Formula ''&'' (Some (Formula ''q'' None None))
                     (Some (Formula ''~'' (Some (Formula ''q'' None None)) None)))))"
  using synthesize_all_false_disjunction [of "[''p'', ''q'']" "[False, False, False, False]"]
  by (simp add: contradiction_of_def)

text \<open>
  Claim C1, as stated: for every non-empty list of variables \<open>V\<close> and every table of
  \<open>2^|V|\<close> truth values, the formula of \<open>synthesize\<close> has that table over
  \<open>all_models(V)\<close>. With a name twice in \<open>V\<close> it has not: \<open>all_models(['p', 'p'])\<close> is
  the list of the models \<open>p\<close> false, true, false, true, and for the table
  true, false, false, false the formula is \<open>~p\<close>, with the table
  true, false, true, false.
\<close>

theorem synthesize_duplicate_names_counterexample:
  "\<not> (\<exists>ms f. all_models [''p'', ''p''] = Inr (Some ms) \<and>
         synthesize [''p'', ''p''] [True, False, False, False] = Inr f \<and>
         truth_values f ms = Inr [True, False, False, False])"
  by (simp add: synthesize_def synthesize_for_model_def dict_or_def atom_def negated_atom_def
        Formula_init_def is_constant_def is_unary_def is_binary_def variables_def keys_def)

text \<open>
  Claim C1, amended: for every non-empty list \<open>V\<close> of distinct variable names and every
  table of \<open>2^|V|\<close> truth values, \<open>synthesize\<close> and \<open>synthesize_cnf\<close> return formulas
  whose truth values in the models of \<open>all_models(V)\<close>, in order, are the table.
\<close>

theorem synthesize_reproduces_table:
  assumes "V \<noteq> []" and "distinct V" and "\<forall>v\<in>set V. is_variable v = Inr True"
    and "length vs = 2 ^ length V"
  shows "\<exists>ms f g. all_models V = Inr (Some ms) \<and>
           synthesize V vs = Inr f \<and> truth_values f ms = Inr vs \<and>
           synthesize_cnf V vs = Inr g \<and> truth_values g ms = Inr vs"
proof -
  from assms(1-3) obtain ms where ms: "all_models V = Inr (Some ms)" "distinct ms"
    "length ms = 2 ^ length V"
    "\<forall>m\<in>set ms. m \<noteq> [] \<and> is_model m = Inr True \<and> keys m = set V \<and> distinct (map fst m)"
    "\<forall>m\<in>set ms. \<forall>m'\<in>set ms. agrees m m' = (m = m')"
    by (rule all_models_table)
  from ms(3) assms(4) have len: "length ms = length vs" by simp
  from synthesize_correct_on [OF assms(1,3) ms(1,2) len ms(4,5)]
  obtain f where f: "synthesize V vs = Inr f" "truth_values f ms = Inr vs" by blast
  from synthesize_cnf_correct_on [OF assms(1,3) ms(1,2) len ms(4,5)]
  obtain g where g: "synthesize_cnf V vs = Inr g" "truth_values g ms = Inr vs" by blast
  from ms(1) f g show ?thesis by blast
qed

theorem synthesize_reproduces_table_witness:
  "\<exists>ms f g. all_models [''p'', ''q''] = Inr (Some ms) \<and>
     synthesize [''p'', ''q''] [True, True, True, False] = Inr f \<and>
     truth_values f ms = Inr [True, True, True, False] \<and>
     synthesize_cnf [''p'', ''q''] [True, True, True, False] = Inr g \<and>
     truth_values g ms = Inr [True, True, True, False]"
  by (rule synthesize_reproduces_table) simp_all

section \<open>Parsing and printing\<close>

lemma balance_Nil: "balance [] = 0" by (simp add: balance_def)
lemma balance_Cons:
  "balance (c # s) = (if c = CHR ''('' then 1 else if c = CHR '')'' then - 1 else 0) + balance s"
  by (simp add: balance_def)
lemma balance_append: "balance (a @ b) = balance a + balance b" by (simp add: balance_def)

lemma Formula_repr_wf: "wf_formula f \<Longrightarrow> Formula_repr f = Inr (render f)"
proof (induction f rule: wf_formula_induct)
  case (Var x) then show ?case by simp
next
  case (Const c) then show ?case by (simp add: is_constant_not_var)
next
  case (Neg a) then show ?case by (simp add: is_constant_def is_unary_def)
next
  case (Bin op a b) then show ?case by (simp add: is_binary_kinds)
qed

lemma scan_balance:
  "scan s c i = (ind, c') \<Longrightarrow> i \<le> ind \<and> ind \<le> i + length s \<and> c' = c + balance (take (ind - i) s)"
proof (induction s c i rule: scan.induct)
  case (1 counter ind')
  then show ?case by (simp add: balance_Nil)
next
  case (2 ele s counter ind')
  show ?case
  proof (cases "ele = CHR ''(''")
    case True
    with 2
      have "Suc ind' \<le> ind \<and> ind \<le> Suc ind' + length s \<and>
              c' = counter + 1 + balance (take (ind - Suc ind') s)"
      by simp
    with True show ?thesis by (auto simp: take_Cons' balance_Cons)
  next
    case no: False
    show ?thesis
    proof (cases "ele = CHR '')''")
      case True
      with 2 no
        have "Suc ind' \<le> ind \<and> ind \<le> Suc ind' + length s \<and>
                c' = counter - 1 + balance (take (ind - Suc ind') s)"
        by simp
      with True show ?thesis by (auto simp: take_Cons' balance_Cons)
    next
      case nc: False
      show ?thesis
      proof (cases "counter = 0")
        case True
        with 2 no nc show ?thesis by (simp add: balance_Nil)
      next
        case False
        with 2 no nc
          have "Suc ind' \<le> ind \<and> ind \<le> Suc ind' + length s \<and>
                  c' = counter + balance (take (ind - Suc ind') s)"
          by simp
        with no nc show ?thesis by (auto simp: take_Cons' balance_Cons)
      qed
    qed
  qed
qed

lemma parse_str_first_ne: "parse_str s = Inr (a, b) \<Longrightarrow> a \<noteq> []"
proof -
  assume p: "parse_str s = Inr (a, b)"
  then obtain c cs where s: "s = c # cs" by (cases s) (auto simp: parse_str_def)
  show ?thesis
  proof (cases "c = CHR ''(''")
    case True
    obtain ind cnt where sc: "scan s 0 0 = (ind, cnt)" by (cases "scan s 0 0")
    have "scan cs 1 1 = (ind, cnt)" using sc s True by simp
    from scan_balance [OF this] have "1 \<le> ind" by simp
    with p s True sc show ?thesis
      by (auto simp: parse_str_def split: if_splits)
  next
    case False
    with p s show ?thesis
      by (auto simp: parse_str_def Let_def split: if_splits)
  qed
qed

lemma parse_str_paren:
  assumes "parse_str s = Inr (a, b)" and "hd a = CHR ''(''" and "a \<noteq> ''(''"
  shows "balance a = 0"
proof -
  from assms(1) obtain c cs where s: "s = c # cs" by (cases s) (auto simp: parse_str_def)
  from assms(1) have app: "s = a @ b" by (rule parse_str_append)
  from parse_str_first_ne [OF assms(1)] app s assms(2) have c: "c = CHR ''(''"
    by (cases a) auto
  obtain ind cnt where sc: "scan s 0 0 = (ind, cnt)" by (cases "scan s 0 0")
  from assms(1,3) s c sc have "cnt = 0" "a = take ind s"
    by (auto simp: parse_str_def split: if_splits)
  with scan_balance [OF sc] show ?thesis by simp
qed

lemma Formula_init_Some:
  "Formula_init r a b = Inr f \<Longrightarrow>
     f = Formula r a b \<or> (f = Formula r None None \<and> a = None \<and> b = None) \<or>
     (f = Formula r a None \<and> b = None)"
  by (auto simp: Formula_init_def split: sum.splits if_splits)

lemma Formula_init_leaf:
  "is_variable r = Inr v \<Longrightarrow> v \<or> is_constant r \<Longrightarrow> Formula_init r None None = Inr f
     \<Longrightarrow> f = Formula r None None \<and> wf_formula f"
  by (auto simp: Formula_init_def)

lemma Formula_init_unary:
  "is_variable r = Inr v \<Longrightarrow> \<not> (v \<or> is_constant r) \<Longrightarrow> is_unary r \<Longrightarrow>
     Formula_init r a None = Inr f \<Longrightarrow> \<exists>x. a = Some x \<and> f = Formula r (Some x) None"
  by (auto simp: Formula_init_def split: if_splits)

lemma Formula_init_binary:
  "is_binary r \<Longrightarrow> Formula_init r a b = Inr f \<Longrightarrow>
     \<exists>x y. a = Some x \<and> b = Some y \<and> f = Formula r (Some x) (Some y)"
  by (auto simp: Formula_init_def is_binary_kinds split: if_splits)

lemma balance_variable: "is_variable x = Inr True \<Longrightarrow> balance x = 0"
proof -
  assume v: "is_variable x = Inr True"
  then obtain c cs where x: "x = c # cs" by (cases x) auto
  have "\<forall>d\<in>set cs. d \<noteq> CHR ''('' \<and> d \<noteq> CHR '')''"
    using v x by (auto simp: isdecimal_def isdecimal_char_def list_all_iff)
  then have "balance cs = 0"
    by (induction cs) (auto simp: balance_Nil balance_Cons)
  moreover from v x have "c \<noteq> CHR ''(''" "c \<noteq> CHR '')''" by auto
  ultimately show ?thesis by (simp add: x balance_Cons)
qed

lemma balance_kinds:
  "is_constant x \<Longrightarrow> balance x = 0" "is_unary x \<Longrightarrow> balance x = 0" "is_binary x \<Longrightarrow> balance x = 0"
  by (auto simp: is_constant_def is_unary_def is_binary_def balance_Cons balance_Nil)

lemma paren_last:
  assumes "x \<noteq> []" and "hd x = CHR ''(''" and "x \<noteq> ''(''" and "balance x = 0"
    and "balance (butlast (tl x)) = 0"
  shows "x = ''('' @ butlast (tl x) @ '')''"
proof -
  from assms(1,2,3) obtain t where x: "x = CHR ''('' # t" "t \<noteq> []" by (cases x) auto
  then have t: "t = butlast t @ [last t]" by simp
  have "balance x = 1 + balance (butlast t) + balance [last t]"
    by (subst x(1), subst t) (simp add: balance_Cons balance_append)
  with assms(4,5) x have "balance [last t] = - 1" by simp
  then have "last t = CHR '')''" by (simp add: balance_Cons balance_Nil split: if_splits)
  with t x show ?thesis by simp
qed

declare parse_prefix.simps [simp del]

lemma parse_prefix_sound:
  "parse_prefix s = Inr (Some f, r) \<Longrightarrow>
     wf_formula f \<and> s = render f @ r \<and> balance (render f) = 0"
proof (induction s arbitrary: f r rule: parse_prefix.induct)
  case (1 string)
  note eq = parse_prefix.simps [of string]
  note res = "1.prems"
  from eq res have ne: "string \<noteq> []" by (auto split: if_splits)
  from eq res ne obtain first' rest where ps: "parse_str string = Inr (first', rest)"
    by (auto split: sum.splits)
  have str: "string = first' @ rest" by (rule parse_str_append [OF ps])
  from eq res ne ps obtain v where iv: "is_variable first' = Inr v"
    by (auto split: sum.splits)
  have fne: "first' \<noteq> []" using iv by (cases first') auto
  show ?case
  proof (cases "v \<or> is_constant first'")
    case True
    with eq res ne ps iv
      obtain g where g: "Formula_init first' None None = Inr g" "f = g" "r = rest"
      by (auto split: sum.splits)
    from Formula_init_leaf [OF iv True g(1)] have f: "g = Formula first' None None" "wf_formula g"
      by blast+
    have "balance first' = 0" using True iv by (auto simp: balance_variable balance_kinds)
    with f g str show ?thesis by simp
  next
    case leaf: False
    show ?thesis
    proof (cases "is_binary first'")
      case True
      with eq res ne ps iv leaf show ?thesis by (auto split: sum.splits)
    next
      case nb: False
      show ?thesis
      proof (cases "is_unary first'")
        case un: True
        from eq res ne ps iv leaf nb un have rne: "rest \<noteq> []" by (auto split: if_splits)
        from eq res ne ps iv leaf nb un rne obtain operand r' g where
          p: "parse_prefix rest = Inr (operand, r')" and
          g: "Formula_init first' operand None = Inr g" "f = g" "r = r'"
          by (auto split: sum.splits)
        from Formula_init_unary [OF iv leaf un g(1)] obtain x where
          x: "operand = Some x" "g = Formula first' (Some x) None" by blast
        from "1.IH"(1) [OF ne ps refl iv leaf nb un rne] p x
        have ih: "wf_formula x" "rest = render x @ r'" "balance (render x) = 0" by simp_all
        have "wf_formula g" using x ih un by (simp add: is_unary_def is_constant_def)
        moreover have "string = render g @ r'" using x str ih by simp
        moreover have "balance (render g) = 0"
          using x ih un by (simp add: balance_append balance_kinds)
        ultimately show ?thesis using g by simp
      next
        case nu: False
        show ?thesis
        proof (cases "hd first' = CHR ''(''")
          case False
          with eq res ne ps iv leaf nb nu show ?thesis by auto
        next
          case par: True
          from eq res ne ps iv leaf nb nu par have np: "first' \<noteq> ''(''"
            by (auto split: if_splits)
          let ?X = "butlast (tl first')"
          from eq res ne ps iv leaf nb nu par np obtain first_f rest' where
            p1: "parse_prefix ?X = Inr (first_f, rest')" by (auto split: sum.splits)
          from eq res ne ps iv leaf nb nu par np p1 have r'ne: "rest' \<noteq> []"
            by (auto split: if_splits)
          from eq res ne ps iv leaf nb nu par np p1 r'ne obtain connective second' where
            ps2: "parse_str rest' = Inr (connective, second')" by (auto split: sum.splits)
          from eq res ne ps iv leaf nb nu par np p1 r'ne ps2 have bc: "is_binary connective"
            by (auto split: if_splits)
          from eq res ne ps iv leaf nb nu par np p1 r'ne ps2 bc obtain second_f second_r where
            p2: "parse_prefix second' = Inr (second_f, second_r)" by (auto split: sum.splits)
          from eq res ne ps iv leaf nb nu par np p1 r'ne ps2 bc p2 have sr: "second_r = []"
            by (auto split: if_splits)
          from eq res ne ps iv leaf nb nu par np p1 r'ne ps2 bc p2 sr obtain g where
            g: "Formula_init connective first_f second_f = Inr g" "f = g" "r = rest"
            by (auto split: sum.splits)
          from Formula_init_binary [OF bc g(1)] obtain x y where
            xy: "first_f = Some x" "second_f = Some y" "g = Formula connective (Some x) (Some y)"
            by blast
          from "1.IH"(2) [OF ne ps refl iv leaf nb nu par np] p1 xy
          have ih1: "wf_formula x" "?X = render x @ rest'" "balance (render x) = 0" by simp_all
          have nn: "\<not> \<not> is_binary connective" using bc by simp
          from "1.IH"(3) [OF ne ps refl iv leaf nb nu par np p1 refl r'ne ps2 refl nn] p2 xy sr
          have ih2: "wf_formula y" "second' = render y" "balance (render y) = 0" by simp_all
          have r': "rest' = connective @ second'" by (rule parse_str_append [OF ps2])
          have X: "?X = render x @ connective @ render y" using ih1 ih2 r' by simp
          then have "balance ?X = 0"
            using ih1 ih2 bc by (simp add: balance_append balance_kinds)
          with paren_last [OF fne par np parse_str_paren [OF ps par np]]
          have "first' = ''('' @ ?X @ '')''" by simp
          with X have first: "first' = render g" using xy by simp
          have "wf_formula g" using xy ih1 ih2 bc by (simp add: is_binary_kinds)
          moreover have "string = render g @ rest" using str first by simp
          moreover have "balance (render g) = 0"
            using first parse_str_paren [OF ps par np] by simp
          ultimately show ?thesis using g by simp
        qed
      qed
    qed
  qed
qed



lemma stop_Nil: "stop []" by (simp add: stop_def)

lemma stop_binary: "is_binary op \<Longrightarrow> stop (op @ t)"
  by (auto simp: stop_def is_binary_def isdecimal_char_def)

lemma scan_noparen:
  "\<forall>ch\<in>set t. ch \<noteq> CHR ''('' \<and> ch \<noteq> CHR '')'' \<Longrightarrow> c \<noteq> 0 \<Longrightarrow>
     scan (t @ s) c i = scan s c (i + length t)"
  by (induction t arbitrary: i) auto

lemma noparen_variable:
  "is_variable x = Inr True \<Longrightarrow> \<forall>ch\<in>set x. ch \<noteq> CHR ''('' \<and> ch \<noteq> CHR '')''"
  by (cases x) (auto simp: isdecimal_def isdecimal_char_def list_all_iff)

lemma noparen_kinds:
  "is_constant x \<Longrightarrow> \<forall>ch\<in>set x. ch \<noteq> CHR ''('' \<and> ch \<noteq> CHR '')''"
  "is_binary x \<Longrightarrow> \<forall>ch\<in>set x. ch \<noteq> CHR ''('' \<and> ch \<noteq> CHR '')''"
  by (auto simp: is_constant_def is_binary_def)

lemma scan_render:
  "wf_formula f \<Longrightarrow> 0 < c \<Longrightarrow> scan (render f @ s) c i = scan s c (i + length (render f))"
proof (induction f arbitrary: c i s rule: wf_formula_induct)
  case (Var x)
  then show ?case using scan_noparen [OF noparen_variable [OF Var(1)], of c s i] by simp
next
  case (Const x)
  then show ?case using scan_noparen [OF noparen_kinds(1) [OF Const(1)], of c s i] by simp
next
  case (Neg a)
  from Neg.prems have "scan (render a @ s) c (Suc i) = scan s c (Suc i + length (render a))"
    by (rule Neg.IH)
  with Neg.prems show ?case by simp
next
  case (Bin op a b)
  have c1: "0 < c + 1" using Bin.prems by simp
  have "scan (render (Formula op (Some a) (Some b)) @ s) c i =
        scan (render a @ (op @ render b @ '')'' @ s)) (c + 1) (Suc i)" by simp
  also have "\<dots> = scan (op @ (render b @ '')'' @ s)) (c + 1) (Suc i + length (render a))"
    by (rule Bin.IH(1) [OF c1])
  also have "\<dots> = scan (render b @ ('')'' @ s)) (c + 1) (Suc i + length (render a) + length op)"
    using scan_noparen [OF noparen_kinds(2) [OF Bin.hyps(1)], of "c + 1"] c1 by simp
  also have "\<dots> = scan ('')'' @ s) (c + 1) (Suc i + length (render a) + length op + length (render b))"
    by (rule Bin.IH(2) [OF c1])
  also have "\<dots> = scan s c (i + length (render (Formula op (Some a) (Some b))))"
    by (simp add: add.assoc)
  finally show ?case .
qed

lemma scan_stop: "stop r \<Longrightarrow> scan r 0 i = (i, 0)"
  by (cases r) (auto simp: stop_def)

lemma render_ne: "wf_formula f \<Longrightarrow> render f \<noteq> []"
  by (induction f rule: wf_formula_induct) (auto simp: is_constant_def is_variable_ne)

lemma takeWhile_digits:
  "list_all isdecimal_char ds \<Longrightarrow> stop r \<Longrightarrow> takeWhile isdecimal_char (ds @ r) = ds"
  by (induction ds) (auto simp: stop_def takeWhile_eq_Nil_iff intro: hd_in_set)

lemma parse_str_var:
  assumes "is_variable x = Inr True" and "stop r"
  shows "parse_str (x @ r) = Inr (x, r)"
proof -
  from assms(1) obtain c ds where x: "x = c # ds" by (cases x) auto
  with assms(1) have c: "is_variable [c] = Inr True" and ds: "list_all isdecimal_char ds"
    by (auto simp: isdecimal_def)
  from takeWhile_digits [OF ds assms(2)] c show ?thesis
    by (simp add: parse_str_def x)
qed

lemma parse_str_single:
  "\<not> (CHR ''p'' \<le> c \<and> c \<le> CHR ''z'') \<Longrightarrow> c \<noteq> CHR ''('' \<Longrightarrow> c \<noteq> CHR ''-'' \<Longrightarrow>
     parse_str (c # r) = Inr ([c], r)"
  by (auto simp: parse_str_def)

lemma parse_str_binary: "is_binary op \<Longrightarrow> parse_str (op @ r) = Inr (op, r)"
  by (auto simp: is_binary_def parse_str_def)

lemma parse_str_group:
  assumes "wf_formula a" and "wf_formula b" and "is_binary op" and "stop r"
  shows "parse_str (''('' @ render a @ op @ render b @ '')'' @ r) =
           Inr (''('' @ render a @ op @ render b @ '')'', r)"
proof -
  let ?f = "Formula op (Some a) (Some b)"
  have wf: "wf_formula ?f" using assms by (simp add: is_binary_kinds)
  have r: "render ?f = ''('' @ render a @ op @ render b @ '')''" by simp
  from render_ne [OF assms(1)] obtain d t where a: "render a = d # t" by (cases "render a") auto
  have "scan (render ?f @ r) 0 0 = scan (render a @ (op @ render b @ '')'' @ r)) 1 1" by simp
  also have "\<dots> = scan (op @ (render b @ '')'' @ r)) 1 (1 + length (render a))"
    by (rule scan_render [OF assms(1)]) simp
  also have "\<dots> = scan (render b @ ('')'' @ r)) 1 (1 + length (render a) + length op)"
    using scan_noparen [OF noparen_kinds(2) [OF assms(3)], of 1] by simp
  also have "\<dots> = scan ('')'' @ r) 1 (1 + length (render a) + length op + length (render b))"
    by (rule scan_render [OF assms(2)]) simp
  also have "\<dots> = (length (render ?f), 0)" using scan_stop [OF assms(4)] by simp
  finally have sc: "scan (render ?f @ r) 0 0 = (length (render ?f), 0)" .
  have "parse_str (render ?f @ r) = Inr (render ?f, r)"
    using sc by (simp add: parse_str_def a)
  then show ?thesis by simp
qed

lemma Formula_init_Const:
  "is_constant c \<Longrightarrow> Formula_init c None None = Inr (Formula c None None)"
  by (simp add: Formula_init_def is_constant_not_var)

lemma parse_prefix_complete:
  "wf_formula f \<Longrightarrow> stop r \<Longrightarrow> parse_prefix (render f @ r) = Inr (Some f, r)"
proof (induction f arbitrary: r rule: wf_formula_induct)
  case (Var x)
  from Var(1) have "x \<noteq> []" by (rule is_variable_ne)
  with Var parse_str_var [OF Var(1) Var(2)] show ?case
    by (subst parse_prefix.simps) (simp add: Formula_init_Var)
next
  case (Const c)
  then have "parse_str (c @ r) = Inr (c, r)"
    using parse_str_single [of "CHR ''T''" r] parse_str_single [of "CHR ''F''" r]
    by (auto simp: is_constant_def)
  with Const show ?case
    by (subst parse_prefix.simps)
      (auto simp: Formula_init_Const is_constant_not_var is_constant_def)
next
  case (Neg a)
  have ps: "parse_str (''~'' @ render a @ r) = Inr (''~'', render a @ r)"
    using parse_str_single [of "CHR ''~''" "render a @ r"] by simp
  have ih: "parse_prefix (render a @ r) = Inr (Some a, r)" using Neg.prems by (rule Neg.IH)
  from render_ne [OF Neg.hyps] have ne: "render a @ r \<noteq> []" by simp
  show ?case
    using ps ih ne
    by (subst parse_prefix.simps)
      (simp add: Formula_init_Neg is_constant_def is_binary_def is_unary_def)
next
  case (Bin op a b)
  let ?X = "render a @ op @ render b"
  let ?first = "''('' @ ?X @ '')''"
  have ps: "parse_str (?first @ r) = Inr (?first, r)"
    using parse_str_group [OF Bin.hyps(2,3,1) Bin.prems] by simp
  have kinds: "is_variable ?first = Inr False" "\<not> is_constant ?first" "\<not> is_binary ?first"
    "\<not> is_unary ?first" "hd ?first = CHR ''(''" "?first \<noteq> ''(''" "butlast (tl ?first) = ?X"
    by (simp_all add: is_constant_def is_binary_def is_unary_def butlast_append)
  have p1: "parse_prefix ?X = Inr (Some a, op @ render b)"
    using stop_binary [OF Bin.hyps(1)] by (rule Bin.IH(1))
  from Bin.hyps(1) have opne: "op @ render b \<noteq> []" "\<not> (op = [] \<and> render b = [])"
    by (auto simp: is_binary_def)
  have ps2: "parse_str (op @ render b) = Inr (op, render b)"
    using Bin.hyps(1) by (rule parse_str_binary)
  have p2: "parse_prefix (render b) = Inr (Some b, [])"
    using Bin.IH(2) [OF stop_Nil] by simp
  have "parse_prefix (?first @ r) = Inr (Some (Formula op (Some a) (Some b)), r)"
    by (subst parse_prefix.simps)
      (simp only: ps kinds p1 opne ps2 p2 Bin.hyps(1) Formula_init_Bin [OF Bin.hyps(1)]
         sum.case prod.case if_False if_True simp_thms append_is_Nil_conv list.simps)
  then show ?case by simp
qed

lemma parse_prefix_None_message: "parse_prefix s = Inr (None, r) \<Longrightarrow> r \<noteq> []"
  by (subst (asm) parse_prefix.simps)
    (auto simp: msg_empty_def msg_unary_def msg_not_closed_def msg_one_found_def
       msg_connective_def msg_not_valid_def msg_couldnt_def
       split: if_splits sum.splits prod.splits dest: Formula_init_Some)

text \<open>
  Claim C2: for every string \<open>s\<close> with \<open>is_formula(s)\<close> true, \<open>parse(s)\<close> is a formula whose
  canonical string is \<open>s\<close>; and for every formula \<open>f\<close>, its canonical string is accepted
  by \<open>is_formula\<close> and \<open>parse\<close> of it is \<open>f\<close>.
\<close>

theorem parse_render_roundtrip:
  "(is_formula s = Inr True \<longrightarrow>
      (\<exists>f. parse s = Inr (Some f) \<and> wf_formula f \<and> Formula_repr f = Inr s)) \<and>
   (wf_formula f \<longrightarrow>
      (\<exists>t. Formula_repr f = Inr t \<and> is_formula t = Inr True \<and> parse t = Inr (Some f)))"
proof (intro conjI impI)
  assume ok: "is_formula s = Inr True"
  then obtain x where p: "parse_prefix s = Inr (x, [])"
    by (auto simp: is_formula_def split: sum.splits if_splits)
  with parse_prefix_None_message [of s "[]"] obtain g where x: "x = Some g" by (cases x) auto
  from parse_prefix_sound [of s g "[]"] p x have "wf_formula g" "s = render g" by simp_all
  moreover from ok p x have "parse s = Inr (Some g)" by (simp add: parse_def)
  ultimately show "\<exists>f. parse s = Inr (Some f) \<and> wf_formula f \<and> Formula_repr f = Inr s"
    by (auto simp: Formula_repr_wf)
next
  assume wf: "wf_formula f"
  from parse_prefix_complete [OF wf stop_Nil] have p: "parse_prefix (render f) = Inr (Some f, [])"
    by simp
  then have "is_formula (render f) = Inr True" "parse (render f) = Inr (Some f)"
    by (simp_all add: is_formula_def parse_def)
  with wf
    show "\<exists>t. Formula_repr f = Inr t \<and> is_formula t = Inr True \<and> parse t = Inr (Some f)"
    by (simp add: Formula_repr_wf)
qed

theorem parse_render_roundtrip_witness:
  "(\<exists>f. parse ''~(p&q76)'' = Inr (Some f) \<and> wf_formula f \<and> Formula_repr f = Inr ''~(p&q76)'') \<and>
   (\<exists>t. Formula_repr (Formula ''->'' (Some (Formula ''x1'' None None))
                        (Some (Formula ''T'' None None))) = Inr t \<and>
        is_formula t = Inr True \<and>
        parse t = Inr (Some (Formula ''->'' (Some (Formula ''x1'' None None))
                               (Some (Formula ''T'' None None)))))"
proof -
  have a: "is_formula ''~(p&q76)'' = Inr True"
    by (simp add: is_formula_def parse_prefix.simps parse_str_def is_binary_def is_unary_def
          is_constant_def Formula_init_def isdecimal_def isdecimal_char_def)
  have b: "wf_formula (Formula ''->'' (Some (Formula ''x1'' None None))
                        (Some (Formula ''T'' None None)))"
    by (simp add: is_binary_def is_unary_def is_constant_def isdecimal_def isdecimal_char_def)
  from parse_render_roundtrip
    [of "''~(p&q76)''" "Formula ''->'' (Some (Formula ''x1'' None None))
                        (Some (Formula ''T'' None None))"] a b
  show ?thesis by blast
qed

end
